theory Spec2Isabelle
  imports Complex_Main "HOL-Library.Word" "HOL-Library.Log_Nat"
begin

unbundle bit_operations_syntax

section \<open>The tree sequence builder of tsinfer (lib/tree\_sequence\_builder.c)\<close>

text \<open>
  The builder is embedded as state-passing functions over a record. Conventions:
  \<^item> node and site ids (\<^verbatim>\<open>tsk_id_t\<close>, a signed 32-bit integer) are \<open>int\<close>; the
    counters stay far below \<open>2^31\<close> and no arithmetic is done on ids;
  \<^item> a time (C \<^verbatim>\<open>double\<close>) is the \<open>real\<close> number that the finite binary64 value
    stands for: comparisons and \<open>min\<close> are exact, and the two places where the source
    does arithmetic on times round the exact result to binary64 (\<open>double_round\<close>);
    infinities and NaN are not modelled;
  \<^item> an \<^verbatim>\<open>indexed_edge_t *\<close> is an arena index (\<open>nat\<close>) into \<open>edge_heap\<close>; the chain
    that the C code threads through the \<^verbatim>\<open>next\<close> field of a child's edges is the list
    of arena indices \<open>path s c\<close>, head first;
  \<^item> the arrays \<^verbatim>\<open>time\<close>, \<^verbatim>\<open>node_flags\<close> and \<^verbatim>\<open>path\<close> are functions
    on \<open>nat\<close>; only the slots below \<open>num_nodes\<close> are initialised, and a read at a
    negative index or of a released edge is the outcome \<open>Fault\<close>;
  \<^item> a failing C \<^verbatim>\<open>assert\<close> (the Makefile does not define \<^verbatim>\<open>NDEBUG\<close>) is the
    outcome \<open>Assert\<close> with the place of the assertion;
  \<^item> allocation never fails, so the \<^verbatim>\<open>TSI_ERR_NO_MEMORY\<close> branches are not taken.
\<close>

subsection \<open>Data\<close>

record edge_t =
  left :: int
  right :: int
  parent :: int
  child :: int

record indexed_edge_t = edge_t +
  etime :: real

datatype tsi_err =
    TSI_ERR_GENERIC
  | TSI_ERR_NO_MEMORY
  | TSI_ERR_BAD_PATH_PARENT
  | TSI_ERR_BAD_PATH_TIME
  | TSI_ERR_NONCONTIGUOUS_EDGES
  | TSI_ERR_UNSORTED_EDGES
  | TSI_ERR_ASSERTION_FAILURE

datatype assert_site =
    Alloc_edge_parent
  | Alloc_edge_child
  | Alloc_edge_time
  | Avl_insert_left
  | Avl_insert_right
  | Avl_insert_path
  | Avl_search_left
  | Avl_search_right
  | Avl_search_path
  | Squash_head
  | Squash_child
  | Squash_indexed_head
  | Pc_mapped_child
  | Freeze_count
  | Check_state

datatype stop = Err tsi_err | Assert assert_site | Fault

record tree_sequence_builder_t =
  num_nodes :: nat
  time :: "nat \<Rightarrow> real"
  node_flags :: "nat \<Rightarrow> 32 word"
  path :: "nat \<Rightarrow> nat list"
  edge_heap :: "nat \<Rightarrow> indexed_edge_t option"
  edge_heap_next :: nat
  edge_heap_allocated :: nat
  avl_node_heap_allocated :: nat
  left_index :: "nat list"
  right_index :: "nat list"
  path_index :: "nat list"
  num_edges :: nat
  left_index_edges :: "edge_t list"
  right_index_edges :: "edge_t list"

datatype 'a res =
    Ok 'a tree_sequence_builder_t
  | Stop stop tree_sequence_builder_t

text \<open>
  Modelled from the spec: the header tsinfer.h is not among the sources. \<open>NULL_NODE\<close> is
  the sentinel child of a detached edge, \<open>TSI_NODE_IS_PC_ANCESTOR\<close> the node flag bit of a
  path-compression ancestor, \<open>TSI_COMPRESS_PATH\<close> and \<open>TSI_EXTENDED_CHECKS\<close> the two flag
  bits of \<open>add_path\<close>.
\<close>

definition NULL_NODE :: int where
  "NULL_NODE = - 1"

definition TSI_NODE_IS_PC_ANCESTOR :: "32 word" where
  "TSI_NODE_IS_PC_ANCESTOR = 65536"

definition TSI_COMPRESS_PATH :: "32 word" where
  "TSI_COMPRESS_PATH = 1"

definition TSI_EXTENDED_CHECKS :: "32 word" where
  "TSI_EXTENDED_CHECKS = 2"

definition PC_ANCESTOR_INCREMENT :: real where
  "PC_ANCESTOR_INCREMENT = 1 / 65536"

subsection \<open>Arithmetic on times\<close>

text \<open>
  The C code adds and subtracts times as \<^verbatim>\<open>double\<close> values, so the result of
  \<^verbatim>\<open>time[0] + 1\<close> and of \<^verbatim>\<open>min_parent_time -= PC_ANCESTOR_INCREMENT\<close> is the exact
  sum or difference rounded to the nearest binary64 value, ties to the even significand.
  \<open>double_exponent x\<close> is the \<open>e\<close> with \<open>2^e \<le> |x| < 2^(e + 1)\<close>, computed from the
  number of binary digits of the integer part of \<open>|x|\<close> or of \<open>1/|x|\<close>, and
  \<open>double_ulp x\<close> is the distance between neighbouring binary64 values at the magnitude
  of \<open>x\<close>: \<open>2^(e - 52)\<close>, and \<open>2^(-1074)\<close> in the subnormal range. Adding 1 or subtracting \<open>2^(-16)\<close> cannot take a finite binary64
  value out of the finite range, so no overflow case is needed.
\<close>

definition round_ties_even :: "real \<Rightarrow> int" where
  "round_ties_even y =
     (let f = \<lfloor>y\<rfloor> in
      if y - of_int f < 1 / 2 then f
      else if y - of_int f > 1 / 2 then f + 1
      else if even f then f else f + 1)"

definition double_exponent :: "real \<Rightarrow> int" where
  "double_exponent x =
     (if 1 \<le> \<bar>x\<bar> then int (floorlog 2 (nat \<lfloor>\<bar>x\<bar>\<rfloor>)) - 1
      else - int (floorlog 2 (nat (\<lceil>1 / \<bar>x\<bar>\<rceil> - 1))))"

definition double_ulp :: "real \<Rightarrow> real" where
  "double_ulp x = 2 powi (max (double_exponent x - 52) (- 1074))"

definition double_round :: "real \<Rightarrow> real" where
  "double_round x =
     (if x = 0 then 0 else of_int (round_ties_even (x / double_ulp x)) * double_ulp x)"

definition valid_node :: "tree_sequence_builder_t \<Rightarrow> int \<Rightarrow> bool" where
  "valid_node s u \<longleftrightarrow> 0 \<le> u \<and> u < int (num_nodes s)"

subsection \<open>Comparison functions of the three indexes\<close>

definition cmp3 :: "'a::linorder \<Rightarrow> 'a \<Rightarrow> int" where
  "cmp3 a b = (if a > b then 1 else 0) - (if a < b then 1 else 0)"

definition cmp_edge_left_increasing_time :: "indexed_edge_t \<Rightarrow> indexed_edge_t \<Rightarrow> int" where
  "cmp_edge_left_increasing_time ca cb =
     (let ret = cmp3 (left ca) (left cb) in
      if ret = 0 then
        (let ret = cmp3 (etime ca) (etime cb) in
         if ret = 0 then cmp3 (child ca) (child cb) else ret)
      else ret)"

definition cmp_edge_right_decreasing_time :: "indexed_edge_t \<Rightarrow> indexed_edge_t \<Rightarrow> int" where
  "cmp_edge_right_decreasing_time ca cb =
     (let ret = cmp3 (right ca) (right cb) in
      if ret = 0 then
        (let ret = cmp3 (etime cb) (etime ca) in
         if ret = 0 then cmp3 (child ca) (child cb) else ret)
      else ret)"

definition cmp_edge_path :: "indexed_edge_t \<Rightarrow> indexed_edge_t \<Rightarrow> int" where
  "cmp_edge_path ca cb =
     (let ret = cmp3 (left ca) (left cb) in
      if ret = 0 then
        (let ret = cmp3 (right ca) (right cb) in
         if ret = 0 then
           (let ret = cmp3 (parent ca) (parent cb) in
            if ret = 0 then cmp3 (child ca) (child cb) else ret)
         else ret)
      else ret)"

subsection \<open>The ordered container behind an index\<close>

text \<open>
  Modelled from the spec: avl.c is not among the sources. An index is an ordered
  container with insert, delete, exact search and closest search with neighbour access.
  It is the list of its items in ascending order of the comparison function; an item is
  the arena index of an edge and is compared through the edge it points to. Inserting an
  item that compares equal to a stored one stores nothing and returns no node, which is
  what the assertions after every \<^verbatim>\<open>avl_insert_node\<close> in the source guard against.
\<close>

definition avl_count :: "nat list \<Rightarrow> nat" where
  "avl_count t = length t"

definition items_live :: "(nat \<Rightarrow> indexed_edge_t option) \<Rightarrow> nat list \<Rightarrow> bool" where
  "items_live h t \<longleftrightarrow> list_all (\<lambda>i. h i \<noteq> None) t"

definition avl_search ::
  "(indexed_edge_t \<Rightarrow> indexed_edge_t \<Rightarrow> int) \<Rightarrow> (nat \<Rightarrow> indexed_edge_t option) \<Rightarrow>
   nat list \<Rightarrow> indexed_edge_t \<Rightarrow> nat option" where
  "avl_search cmp h t key =
     find (\<lambda>i. case h i of None \<Rightarrow> False | Some x \<Rightarrow> cmp key x = 0) t"

definition avl_insert_node ::
  "(indexed_edge_t \<Rightarrow> indexed_edge_t \<Rightarrow> int) \<Rightarrow> (nat \<Rightarrow> indexed_edge_t option) \<Rightarrow>
   nat list \<Rightarrow> nat \<Rightarrow> indexed_edge_t \<Rightarrow> nat list option" where
  "avl_insert_node cmp h t e key =
     (if avl_search cmp h t key \<noteq> None then None
      else Some (takeWhile (\<lambda>i. case h i of None \<Rightarrow> False | Some x \<Rightarrow> cmp x key < 0) t
                 @ e # dropWhile (\<lambda>i. case h i of None \<Rightarrow> False | Some x \<Rightarrow> cmp x key < 0) t))"

definition avl_unlink_node :: "nat list \<Rightarrow> nat \<Rightarrow> nat list" where
  "avl_unlink_node t i = remove1 i t"

text \<open>
  The closest search returns the position of the item equal to the key when there is
  one, and otherwise the position of one of its two neighbours in the order: here the
  last smaller item, or the first item when none is smaller. The result is \<open>None\<close> on
  an empty container.
\<close>

definition avl_search_closest ::
  "(indexed_edge_t \<Rightarrow> indexed_edge_t \<Rightarrow> int) \<Rightarrow> (nat \<Rightarrow> indexed_edge_t option) \<Rightarrow>
   nat list \<Rightarrow> indexed_edge_t \<Rightarrow> nat option" where
  "avl_search_closest cmp h t key =
     (if t = [] then None
      else
        (let n = length (takeWhile (\<lambda>i. case h i of None \<Rightarrow> False | Some x \<Rightarrow> cmp x key < 0) t)
         in if n < length t \<and> (case h (t ! n) of None \<Rightarrow> False | Some x \<Rightarrow> cmp key x = 0)
            then Some n
            else if n = 0 then Some 0 else Some (n - 1)))"

subsection \<open>Node table and edge arena\<close>

text \<open>
  Modelled from the spec: object_heap.c is not among the sources. The edge heap is a
  pool of edge records: allocation hands out a record that is not in use (here always
  the one at \<open>edge_heap_next\<close>, so a released record is not handed out again), release
  returns it to the pool, and the heap counts the records in use. The heap of index
  nodes is represented by its count alone.
\<close>

definition tree_sequence_builder_add_node ::
  "tree_sequence_builder_t \<Rightarrow> real \<Rightarrow> 32 word \<Rightarrow> int \<times> tree_sequence_builder_t" where
  "tree_sequence_builder_add_node s t flags =
     (int (num_nodes s),
      s\<lparr>time := (time s)(num_nodes s := t),
        node_flags := (node_flags s)(num_nodes s := flags),
        num_nodes := num_nodes s + 1\<rparr>)"

definition tree_sequence_builder_alloc_edge ::
  "tree_sequence_builder_t \<Rightarrow> int \<Rightarrow> int \<Rightarrow> int \<Rightarrow> int \<Rightarrow> nat res" where
  "tree_sequence_builder_alloc_edge s l r p c =
     (if \<not> p < int (num_nodes s) then Stop (Assert Alloc_edge_parent) s
      else if \<not> c < int (num_nodes s) then Stop (Assert Alloc_edge_child) s
      else if p < 0 \<or> c < 0 then Stop Fault s
      else if \<not> time s (nat p) > time s (nat c) then Stop (Assert Alloc_edge_time) s
      else Ok (edge_heap_next s)
             (s\<lparr>edge_heap := (edge_heap s)(edge_heap_next s \<mapsto>
                   \<lparr>left = l, right = r, parent = p, child = c, etime = time s (nat c)\<rparr>),
                edge_heap_next := edge_heap_next s + 1,
                edge_heap_allocated := edge_heap_allocated s + 1\<rparr>))"

definition tree_sequence_builder_free_edge ::
  "tree_sequence_builder_t \<Rightarrow> nat \<Rightarrow> tree_sequence_builder_t" where
  "tree_sequence_builder_free_edge s e =
     s\<lparr>edge_heap := (edge_heap s)(e := None),
       edge_heap_allocated := edge_heap_allocated s - 1\<rparr>"

subsection \<open>Indexing and unindexing an edge\<close>

definition tree_sequence_builder_unindex_edge ::
  "tree_sequence_builder_t \<Rightarrow> nat \<Rightarrow> unit res" where
  "tree_sequence_builder_unindex_edge s e =
     (case edge_heap s e of
        None \<Rightarrow> Stop Fault s
      | Some key \<Rightarrow>
          if \<not> (items_live (edge_heap s) (left_index s)
                \<and> items_live (edge_heap s) (right_index s)
                \<and> items_live (edge_heap s) (path_index s)) then Stop Fault s
          else
          (case avl_search cmp_edge_left_increasing_time (edge_heap s) (left_index s) key of
             None \<Rightarrow> Stop (Assert Avl_search_left) s
           | Some a \<Rightarrow>
             (case avl_search cmp_edge_right_decreasing_time (edge_heap s) (right_index s) key of
                None \<Rightarrow> Stop (Assert Avl_search_right) s
              | Some b \<Rightarrow>
                (case avl_search cmp_edge_path (edge_heap s) (path_index s) key of
                   None \<Rightarrow> Stop (Assert Avl_search_path) s
                 | Some c \<Rightarrow>
                     Ok () (s\<lparr>left_index := avl_unlink_node (left_index s) a,
                              right_index := avl_unlink_node (right_index s) b,
                              path_index := avl_unlink_node (path_index s) c,
                              avl_node_heap_allocated := avl_node_heap_allocated s - 3\<rparr>)))))"

definition tree_sequence_builder_index_edge ::
  "tree_sequence_builder_t \<Rightarrow> nat \<Rightarrow> unit res" where
  "tree_sequence_builder_index_edge s e =
     (case edge_heap s e of
        None \<Rightarrow> Stop Fault s
      | Some key \<Rightarrow>
          if \<not> (items_live (edge_heap s) (left_index s)
                \<and> items_live (edge_heap s) (right_index s)
                \<and> items_live (edge_heap s) (path_index s)) then Stop Fault s
          else
          (case avl_insert_node cmp_edge_left_increasing_time (edge_heap s) (left_index s) e key of
             None \<Rightarrow> Stop (Assert Avl_insert_left) s
           | Some li \<Rightarrow>
             (case avl_insert_node cmp_edge_right_decreasing_time (edge_heap s) (right_index s) e key of
                None \<Rightarrow> Stop (Assert Avl_insert_right) s
              | Some ri \<Rightarrow>
                (case avl_insert_node cmp_edge_path (edge_heap s) (path_index s) e key of
                   None \<Rightarrow> Stop (Assert Avl_insert_path) s
                 | Some pt \<Rightarrow>
                     Ok () (s\<lparr>left_index := li, right_index := ri, path_index := pt,
                              avl_node_heap_allocated := avl_node_heap_allocated s + 3\<rparr>)))))"

fun index_chain :: "tree_sequence_builder_t \<Rightarrow> nat list \<Rightarrow> unit res" where
  "index_chain s [] = Ok () s"
| "index_chain s (e # es) =
     (case tree_sequence_builder_index_edge s e of
        Stop x s' \<Rightarrow> Stop x s'
      | Ok _ s' \<Rightarrow> index_chain s' es)"

definition tree_sequence_builder_index_edges ::
  "tree_sequence_builder_t \<Rightarrow> int \<Rightarrow> unit res" where
  "tree_sequence_builder_index_edges s node =
     (if node < 0 then Stop Fault s else index_chain s (path s (nat node)))"

definition edge_update ::
  "tree_sequence_builder_t \<Rightarrow> nat \<Rightarrow> (indexed_edge_t \<Rightarrow> indexed_edge_t) \<Rightarrow> tree_sequence_builder_t" where
  "edge_update s i f = s\<lparr>edge_heap := (edge_heap s)(i := map_option f (edge_heap s i))\<rparr>"

subsection \<open>Looking up a matching edge in the path index\<close>

definition edge_matches :: "indexed_edge_t \<Rightarrow> indexed_edge_t option \<Rightarrow> bool" where
  "edge_matches query fo =
     (case fo of None \<Rightarrow> False
      | Some found \<Rightarrow> left found = left query \<and> right found = right query
                      \<and> parent found = parent query)"

definition tree_sequence_builder_find_match ::
  "tree_sequence_builder_t \<Rightarrow> nat \<Rightarrow> nat option res" where
  "tree_sequence_builder_find_match s query =
     (case edge_heap s query of
        None \<Rightarrow> Stop Fault s
      | Some q \<Rightarrow>
          if \<not> items_live (edge_heap s) (path_index s) then Stop Fault s
          else
            (case avl_search_closest cmp_edge_path (edge_heap s) (path_index s) (q\<lparr>child := 0\<rparr>) of
               None \<Rightarrow> Ok None s
             | Some n \<Rightarrow>
                 (let t = path_index s in
                  if edge_matches q (edge_heap s (t ! n)) then Ok (Some (t ! n)) s
                  else
                    (let ret = (if 0 < n \<and> edge_matches q (edge_heap s (t ! (n - 1)))
                                then Some (t ! (n - 1)) else None)
                     in if ret = None \<and> n + 1 < length t
                           \<and> edge_matches q (edge_heap s (t ! (n + 1)))
                        then Ok (Some (t ! (n + 1))) s
                        else Ok ret s))))"

subsection \<open>Squashing\<close>

text \<open>
  The loop of \<open>squash_edges\<close> with \<open>prev\<close> and the rest of the chain starting at \<open>x\<close>.
  It returns the chain from \<open>prev\<close> on as the \<^verbatim>\<open>next\<close> links leave it.
\<close>

fun squash_chain :: "tree_sequence_builder_t \<Rightarrow> int \<Rightarrow> nat \<Rightarrow> nat list \<Rightarrow> nat list res" where
  "squash_chain s node prev [] = Ok [prev] s"
| "squash_chain s node prev (x # rest) =
     (case edge_heap s x of
        None \<Rightarrow> Stop Fault s
      | Some xe \<Rightarrow>
          if child xe \<noteq> node then Stop (Assert Squash_child) s
          else
            (case edge_heap s prev of
               None \<Rightarrow> Stop Fault s
             | Some pe \<Rightarrow>
                 if right pe = left xe \<and> parent pe = parent xe then
                   squash_chain
                     (tree_sequence_builder_free_edge
                        (edge_update s prev (\<lambda>e. e\<lparr>right := right xe\<rparr>)) x)
                     node prev rest
                 else
                   (case squash_chain s node x rest of
                      Stop e s' \<Rightarrow> Stop e s'
                    | Ok ch s' \<Rightarrow> Ok (prev # ch) s')))"

definition tree_sequence_builder_squash_edges ::
  "tree_sequence_builder_t \<Rightarrow> int \<Rightarrow> unit res" where
  "tree_sequence_builder_squash_edges s node =
     (if node < 0 then Stop Fault s
      else
        (case path s (nat node) of
           [] \<Rightarrow> Stop (Assert Squash_head) s
         | prev # rest \<Rightarrow>
             (case squash_chain s node prev rest of
                Stop e s' \<Rightarrow> Stop e s'
              | Ok ch s' \<Rightarrow> Ok () (s'\<lparr>path := (path s')(nat node := ch)\<rparr>))))"

definition detach_prev :: "tree_sequence_builder_t \<Rightarrow> nat \<Rightarrow> indexed_edge_t \<Rightarrow> unit res" where
  "detach_prev s prev pe =
     (if child pe \<noteq> NULL_NODE then
        (case tree_sequence_builder_unindex_edge s prev of
           Stop e s' \<Rightarrow> Stop e s'
         | Ok _ s' \<Rightarrow> Ok () (edge_update s' prev (\<lambda>e. e\<lparr>child := NULL_NODE\<rparr>)))
      else Ok () s)"

fun squash_indexed_chain :: "tree_sequence_builder_t \<Rightarrow> nat \<Rightarrow> nat list \<Rightarrow> nat list res" where
  "squash_indexed_chain s prev [] = Ok [prev] s"
| "squash_indexed_chain s prev (x # rest) =
     (case edge_heap s x of
        None \<Rightarrow> Stop Fault s
      | Some xe \<Rightarrow>
        (case edge_heap s prev of
           None \<Rightarrow> Stop Fault s
         | Some pe \<Rightarrow>
             if right pe = left xe \<and> parent pe = parent xe then
               (case detach_prev s prev pe of
                  Stop e s1 \<Rightarrow> Stop e s1
                | Ok _ s1 \<Rightarrow>
                  (case (if child xe \<noteq> NULL_NODE
                         then tree_sequence_builder_unindex_edge s1 x else Ok () s1) of
                     Stop e s2 \<Rightarrow> Stop e s2
                   | Ok _ s2 \<Rightarrow>
                       squash_indexed_chain
                         (tree_sequence_builder_free_edge
                            (edge_update s2 prev (\<lambda>e. e\<lparr>right := right xe\<rparr>)) x)
                         prev rest))
             else
               (case squash_indexed_chain s x rest of
                  Stop e s' \<Rightarrow> Stop e s'
                | Ok ch s' \<Rightarrow> Ok (prev # ch) s')))"

fun reindex_chain :: "tree_sequence_builder_t \<Rightarrow> int \<Rightarrow> nat list \<Rightarrow> unit res" where
  "reindex_chain s node [] = Ok () s"
| "reindex_chain s node (x # xs) =
     (case edge_heap s x of
        None \<Rightarrow> Stop Fault s
      | Some xe \<Rightarrow>
          if child xe = NULL_NODE then
            (case tree_sequence_builder_index_edge
                    (edge_update s x (\<lambda>e. e\<lparr>child := node\<rparr>)) x of
               Stop e s' \<Rightarrow> Stop e s'
             | Ok _ s' \<Rightarrow> reindex_chain s' node xs)
          else reindex_chain s node xs)"

definition tree_sequence_builder_squash_indexed_edges ::
  "tree_sequence_builder_t \<Rightarrow> int \<Rightarrow> unit res" where
  "tree_sequence_builder_squash_indexed_edges s node =
     (if node < 0 then Stop Fault s
      else
        (case path s (nat node) of
           [] \<Rightarrow> Stop (Assert Squash_indexed_head) s
         | prev # rest \<Rightarrow>
             (case squash_indexed_chain s prev rest of
                Stop e s' \<Rightarrow> Stop e s'
              | Ok ch s' \<Rightarrow> reindex_chain (s'\<lparr>path := (path s')(nat node := ch)\<rparr>) node ch)))"

subsection \<open>Path compression\<close>

fun min_parent_time_loop ::
  "tree_sequence_builder_t \<Rightarrow> int \<Rightarrow> real \<Rightarrow> (nat \<times> nat) list \<Rightarrow> real res" where
  "min_parent_time_loop s mapped_child m [] = Ok m s"
| "min_parent_time_loop s mapped_child m ((source, dest) # rest) =
     (case edge_heap s dest of
        None \<Rightarrow> Stop Fault s
      | Some de \<Rightarrow>
          if child de \<noteq> mapped_child then Stop (Assert Pc_mapped_child) s
          else
            (case edge_heap s source of
               None \<Rightarrow> Stop Fault s
             | Some se \<Rightarrow>
                 if \<not> valid_node s (parent se) then Stop Fault s
                 else min_parent_time_loop s mapped_child
                        (min m (time s (nat (parent se)))) rest))"

fun pc_edges_loop ::
  "tree_sequence_builder_t \<Rightarrow> int \<Rightarrow> nat list \<Rightarrow> (nat \<times> nat) list \<Rightarrow> nat list res" where
  "pc_edges_loop s pc_node chain [] = Ok chain s"
| "pc_edges_loop s pc_node chain ((source, dest) # rest) =
     (case edge_heap s source of
        None \<Rightarrow> Stop Fault s
      | Some se \<Rightarrow>
        (case tree_sequence_builder_alloc_edge s (left se) (right se) (parent se) pc_node of
           Stop e s1 \<Rightarrow> Stop e s1
         | Ok edge s1 \<Rightarrow>
           (case tree_sequence_builder_unindex_edge
                   (edge_update s1 source (\<lambda>e. e\<lparr>parent := pc_node\<rparr>)) dest of
              Stop e s2 \<Rightarrow> Stop e s2
            | Ok _ s2 \<Rightarrow>
                pc_edges_loop
                  (edge_update s2 dest (\<lambda>e. e\<lparr>parent := pc_node, child := NULL_NODE\<rparr>))
                  pc_node (chain @ [edge]) rest)))"

definition tree_sequence_builder_make_pc_node ::
  "tree_sequence_builder_t \<Rightarrow> (nat \<times> nat) list \<Rightarrow> unit res" where
  "tree_sequence_builder_make_pc_node s mapped =
     (case mapped of
        [] \<Rightarrow> Stop Fault s
      | (source0, dest0) # _ \<Rightarrow>
        (case edge_heap s dest0 of
           None \<Rightarrow> Stop Fault s
         | Some d0 \<Rightarrow>
           (let mapped_child = child d0 in
            if \<not> valid_node s mapped_child then Stop Fault s
            else
              (case min_parent_time_loop s mapped_child (double_round (time s 0 + 1)) mapped of
                 Stop e s' \<Rightarrow> Stop e s'
               | Ok m _ \<Rightarrow>
                 (let min_parent_time = double_round (m - PC_ANCESTOR_INCREMENT) in
                  if min_parent_time \<le> time s (nat mapped_child)
                  then Stop (Err TSI_ERR_ASSERTION_FAILURE) s
                  else
                    (case tree_sequence_builder_add_node s min_parent_time
                            TSI_NODE_IS_PC_ANCESTOR of
                       (pc_node, s1) \<Rightarrow>
                       (case pc_edges_loop s1 pc_node [] mapped of
                          Stop e s2 \<Rightarrow> Stop e s2
                        | Ok head s2 \<Rightarrow>
                          (case tree_sequence_builder_squash_edges
                                  (s2\<lparr>path := (path s2)(nat pc_node := head)\<rparr>) pc_node of
                             Stop e s3 \<Rightarrow> Stop e s3
                           | Ok _ s3 \<Rightarrow>
                             (case tree_sequence_builder_squash_indexed_edges s3 mapped_child of
                                Stop e s4 \<Rightarrow> Stop e s4
                              | Ok _ s4 \<Rightarrow>
                                  tree_sequence_builder_index_edges s4 pc_node)))))))))"

text \<open>
  The first loop of \<open>compress_path\<close>: \<open>last_match\<close> holds the \<open>right\<close> and \<open>child\<close> fields of
  the C variable of that name, \<open>mapped\<close> the (source, dest) pairs and \<open>offs\<close> the contig offsets so far.
\<close>

fun match_loop ::
  "tree_sequence_builder_t \<Rightarrow> int \<times> int \<Rightarrow> (nat \<times> nat) list \<Rightarrow> nat list \<Rightarrow> nat list
   \<Rightarrow> ((nat \<times> nat) list \<times> nat list) res" where
  "match_loop s last_match mapped offs [] = Ok (mapped, offs) s"
| "match_loop s last_match mapped offs (c_edge # rest) =
     (case tree_sequence_builder_find_match s c_edge of
        Stop e s' \<Rightarrow> Stop e s'
      | Ok None _ \<Rightarrow> match_loop s last_match mapped offs rest
      | Ok (Some match_edge) _ \<Rightarrow>
        (case edge_heap s c_edge of
           None \<Rightarrow> Stop Fault s
         | Some ce \<Rightarrow>
           (case edge_heap s match_edge of
              None \<Rightarrow> Stop Fault s
            | Some me \<Rightarrow>
                match_loop s (right me, child me) (mapped @ [(c_edge, match_edge)])
                  (if \<not> (left ce = fst last_match \<and> child me = snd last_match)
                   then offs @ [length mapped] else offs)
                  rest)))"

fun remap_loop :: "tree_sequence_builder_t \<Rightarrow> int \<Rightarrow> (nat \<times> nat) list \<Rightarrow> unit res" where
  "remap_loop s mapped_child [] = Ok () s"
| "remap_loop s mapped_child ((source, dest) # rest) =
     (case edge_heap s source of
        None \<Rightarrow> Stop Fault s
      | Some _ \<Rightarrow>
          remap_loop (edge_update s source (\<lambda>e. e\<lparr>parent := mapped_child\<rparr>)) mapped_child rest)"

text \<open>The body of the loop over the contigs, for the contig given as its slice of \<open>mapped\<close>.\<close>

definition compress_contig :: "tree_sequence_builder_t \<Rightarrow> (nat \<times> nat) list \<Rightarrow> unit res" where
  "compress_contig s contig =
     (if length contig > 1 then
        (case edge_heap s (snd (hd contig)) of
           None \<Rightarrow> Stop Fault s
         | Some de \<Rightarrow>
             (let mapped_child = child de in
              if \<not> valid_node s mapped_child then Stop Fault s
              else if node_flags s (nat mapped_child) AND TSI_NODE_IS_PC_ANCESTOR \<noteq> 0
              then remap_loop s mapped_child contig
              else tree_sequence_builder_make_pc_node s contig))
      else Ok () s)"

fun contig_loop ::
  "tree_sequence_builder_t \<Rightarrow> (nat \<times> nat) list \<Rightarrow> nat list \<Rightarrow> unit res" where
  "contig_loop s mapped (a # b # offs) =
     (case compress_contig s (take (b - a) (drop a mapped)) of
        Stop e s' \<Rightarrow> Stop e s'
      | Ok _ s' \<Rightarrow> contig_loop s' mapped (b # offs))"
| "contig_loop s mapped offs = Ok () s"

definition tree_sequence_builder_compress_path ::
  "tree_sequence_builder_t \<Rightarrow> int \<Rightarrow> unit res" where
  "tree_sequence_builder_compress_path s child_node =
     (if child_node < 0 then Stop Fault s
      else
        (case match_loop s (- 1, NULL_NODE) [] [] (path s (nat child_node)) of
           Stop e s' \<Rightarrow> Stop e s'
         | Ok (mapped, offs) _ \<Rightarrow>
           (case contig_loop s mapped (offs @ [length mapped]) of
              Stop e s' \<Rightarrow> Stop e s'
            | Ok _ s' \<Rightarrow> tree_sequence_builder_squash_edges s' child_node)))"

subsection \<open>The invariant check of the debug builds\<close>

fun check_chain :: "(nat \<Rightarrow> indexed_edge_t option) \<Rightarrow> int \<Rightarrow> nat list \<Rightarrow> bool" where
  "check_chain h c [] = True"
| "check_chain h c (e # es) =
     (case h e of
        None \<Rightarrow> False
      | Some x \<Rightarrow>
          child x = c
          \<and> (case es of [] \<Rightarrow> True
              | n # _ \<Rightarrow> (case h n of None \<Rightarrow> False | Some y \<Rightarrow> left y = right x))
          \<and> check_chain h c es)"

definition total_edges :: "tree_sequence_builder_t \<Rightarrow> nat" where
  "total_edges s = sum_list (map (\<lambda>c. length (path s c)) [0..<num_nodes s])"

definition edge_in_indexes :: "tree_sequence_builder_t \<Rightarrow> nat \<Rightarrow> bool" where
  "edge_in_indexes s e =
     (case edge_heap s e of
        None \<Rightarrow> False
      | Some x \<Rightarrow>
          avl_search cmp_edge_left_increasing_time (edge_heap s) (left_index s) x = Some e
          \<and> avl_search cmp_edge_right_decreasing_time (edge_heap s) (right_index s) x = Some e
          \<and> avl_search cmp_edge_path (edge_heap s) (path_index s) x = Some e)"

definition tree_sequence_builder_check_index_integrity :: "tree_sequence_builder_t \<Rightarrow> bool" where
  "tree_sequence_builder_check_index_integrity s =
     list_all (\<lambda>j. list_all (edge_in_indexes s) (path s j)) [0..<num_nodes s]"

text \<open>\<open>check_state\<close> is true when every assertion of the C function holds.\<close>

definition tree_sequence_builder_check_state :: "tree_sequence_builder_t \<Rightarrow> bool" where
  "tree_sequence_builder_check_state s \<longleftrightarrow>
     list_all (\<lambda>c. check_chain (edge_heap s) (int c) (path s c)) [0..<num_nodes s]
     \<and> avl_count (left_index s) = total_edges s
     \<and> avl_count (right_index s) = total_edges s
     \<and> avl_count (path_index s) = total_edges s
     \<and> total_edges s = edge_heap_allocated s
     \<and> 3 * total_edges s = avl_node_heap_allocated s
     \<and> tree_sequence_builder_check_index_integrity s"

subsection \<open>Adding a path\<close>

text \<open>
  The loop of \<open>add_path\<close> over the entries in the order it visits them (from the last
  array position down to the first). \<open>prev\<close> is \<open>None\<close> while \<^verbatim>\<open>head\<close> is NULL, and
  \<open>chain\<close> is the chain from \<^verbatim>\<open>head\<close> built so far.
\<close>

fun add_path_loop ::
  "tree_sequence_builder_t \<Rightarrow> int \<Rightarrow> real \<Rightarrow> nat option \<Rightarrow> nat list \<Rightarrow> (int \<times> int \<times> int) list
   \<Rightarrow> nat list res" where
  "add_path_loop s c child_time prev chain [] = Ok chain s"
| "add_path_loop s c child_time prev chain ((l, r, p) # rest) =
     (if p \<ge> int (num_nodes s) then Stop (Err TSI_ERR_BAD_PATH_PARENT) s
      else if p < 0 then Stop Fault s
      else if time s (nat p) \<le> child_time then Stop (Err TSI_ERR_BAD_PATH_TIME) s
      else
        (case tree_sequence_builder_alloc_edge s l r p c of
           Stop e s1 \<Rightarrow> Stop e s1
         | Ok e s1 \<Rightarrow>
           (case prev of
              None \<Rightarrow> add_path_loop s1 c child_time (Some e) [e] rest
            | Some pr \<Rightarrow>
              (case edge_heap s1 pr of
                 None \<Rightarrow> Stop Fault s1
               | Some pe \<Rightarrow>
                   if right pe \<noteq> l then Stop (Err TSI_ERR_NONCONTIGUOUS_EDGES) s1
                   else add_path_loop s1 c child_time (Some e) (chain @ [e]) rest))))"

definition tree_sequence_builder_add_path ::
  "tree_sequence_builder_t \<Rightarrow> int \<Rightarrow> (int \<times> int \<times> int) list \<Rightarrow> 32 word \<Rightarrow> unit res" where
  "tree_sequence_builder_add_path s c entries flags =
     (if c \<ge> int (num_nodes s) then Stop (Err TSI_ERR_GENERIC) s
      else if c < 0 then Stop Fault s
      else
        (case add_path_loop s c (time s (nat c)) None [] (rev entries) of
           Stop e s1 \<Rightarrow> Stop e s1
         | Ok head s1 \<Rightarrow>
           (case (if flags AND TSI_COMPRESS_PATH \<noteq> 0
                  then tree_sequence_builder_compress_path
                         (s1\<lparr>path := (path s1)(nat c := head)\<rparr>) c
                  else Ok () (s1\<lparr>path := (path s1)(nat c := head)\<rparr>)) of
              Stop e s2 \<Rightarrow> Stop e s2
            | Ok _ s2 \<Rightarrow>
              (case tree_sequence_builder_index_edges s2 c of
                 Stop e s3 \<Rightarrow> Stop e s3
               | Ok _ s3 \<Rightarrow>
                   if flags AND TSI_EXTENDED_CHECKS \<noteq> 0
                      \<and> \<not> tree_sequence_builder_check_state s3
                   then Stop (Assert Check_state) s3
                   else Ok () s3))))"

subsection \<open>Freezing and restoring\<close>

definition edge_payload :: "indexed_edge_t \<Rightarrow> edge_t" where
  "edge_payload x = \<lparr>left = left x, right = right x, parent = parent x, child = child x\<rparr>"

definition tree_sequence_builder_freeze_indexes ::
  "tree_sequence_builder_t \<Rightarrow> unit res" where
  "tree_sequence_builder_freeze_indexes s =
     (if avl_count (left_index s) \<noteq> avl_count (right_index s)
      then Stop (Assert Freeze_count) (s\<lparr>num_edges := avl_count (left_index s)\<rparr>)
      else if \<not> (items_live (edge_heap s) (left_index s)
                 \<and> items_live (edge_heap s) (right_index s))
      then Stop Fault s
      else Ok () (s\<lparr>num_edges := avl_count (left_index s),
                    left_index_edges :=
                      List.map_filter (\<lambda>a. map_option edge_payload (edge_heap s a)) (left_index s),
                    right_index_edges :=
                      List.map_filter (\<lambda>a. map_option edge_payload (edge_heap s a)) (right_index s)\<rparr>))"

text \<open>
  \<^verbatim>\<open>prev->next = e\<close> in \<open>restore_edges\<close>: \<open>prev\<close> is the edge allocated one step
  before, the last of the chain it was linked into, and \<open>e\<close> goes behind it.
\<close>

definition link_after :: "tree_sequence_builder_t \<Rightarrow> nat \<Rightarrow> nat \<Rightarrow> tree_sequence_builder_t" where
  "link_after s prev e =
     s\<lparr>path := (\<lambda>c. if path s c \<noteq> [] \<and> last (path s c) = prev
                    then path s c @ [e] else path s c)\<rparr>"

text \<open>
  The loop of \<open>restore_edges\<close> over the rows \<open>(left, right, parent, child)\<close>; \<open>prev\<close> is the
  edge of the row before and \<open>prev_child\<close> its child (\<open>None\<close> at the first row).
\<close>

fun restore_edges_loop ::
  "tree_sequence_builder_t \<Rightarrow> nat option \<Rightarrow> int option \<Rightarrow> (int \<times> int \<times> int \<times> int) list
   \<Rightarrow> unit res" where
  "restore_edges_loop s prev prev_child [] = Ok () s"
| "restore_edges_loop s prev prev_child ((l, r, p, c) # rest) =
     (if (case prev_child of None \<Rightarrow> False | Some c' \<Rightarrow> c' > c)
      then Stop (Err TSI_ERR_UNSORTED_EDGES) s
      else
        (case tree_sequence_builder_alloc_edge s l r p c of
           Stop x s1 \<Rightarrow> Stop x s1
         | Ok e s1 \<Rightarrow>
           (case (if path s1 (nat c) = []
                  then Ok () (s1\<lparr>path := (path s1)(nat c := [e])\<rparr>)
                  else
                    (case prev of
                       None \<Rightarrow> Stop Fault s1
                     | Some pr \<Rightarrow>
                       (case edge_heap s1 pr of
                          None \<Rightarrow> Stop Fault s1
                        | Some pe \<Rightarrow>
                            if right pe > l then Stop (Err TSI_ERR_UNSORTED_EDGES) s1
                            else Ok () (link_after s1 pr e)))) of
              Stop x s2 \<Rightarrow> Stop x s2
            | Ok _ s2 \<Rightarrow>
              (case tree_sequence_builder_index_edge s2 e of
                 Stop x s3 \<Rightarrow> Stop x s3
               | Ok _ s3 \<Rightarrow> restore_edges_loop s3 (Some e) (Some c) rest))))"

definition tree_sequence_builder_restore_edges ::
  "tree_sequence_builder_t \<Rightarrow> (int \<times> int \<times> int \<times> int) list \<Rightarrow> unit res" where
  "tree_sequence_builder_restore_edges s rows =
     (case restore_edges_loop s None None rows of
        Stop x s' \<Rightarrow> Stop x s'
      | Ok _ s' \<Rightarrow> tree_sequence_builder_freeze_indexes s')"

subsection \<open>Reading a state\<close>

definition builder_init :: tree_sequence_builder_t where
  "builder_init =
     \<lparr>num_nodes = 0, time = (\<lambda>_. 0), node_flags = (\<lambda>_. 0), path = (\<lambda>_. []),
      edge_heap = (\<lambda>_. None), edge_heap_next = 0, edge_heap_allocated = 0,
      avl_node_heap_allocated = 0, left_index = [], right_index = [], path_index = [],
      num_edges = 0, left_index_edges = [], right_index_edges = []\<rparr>"

definition path_edges :: "tree_sequence_builder_t \<Rightarrow> nat \<Rightarrow> edge_t list" where
  "path_edges s c = List.map_filter (\<lambda>e. map_option edge_payload (edge_heap s e)) (path s c)"

definition state_of :: "'a res \<Rightarrow> tree_sequence_builder_t" where
  "state_of r = (case r of Ok _ s \<Rightarrow> s | Stop _ s \<Rightarrow> s)"

definition returns_ok :: "'a res \<Rightarrow> bool" where
  "returns_ok r = (case r of Ok _ _ \<Rightarrow> True | Stop _ _ \<Rightarrow> False)"

definition stop_of :: "'a res \<Rightarrow> stop option" where
  "stop_of r = (case r of Ok _ _ \<Rightarrow> None | Stop x _ \<Rightarrow> Some x)"

subsection \<open>Properties of a path, and the states of the scenarios\<close>

fun left_contiguous :: "edge_t list \<Rightarrow> bool" where
  "left_contiguous (a # b # es) = (right a = left b \<and> left_contiguous (b # es))"
| "left_contiguous es = True"


definition with_nodes :: "real list \<Rightarrow> tree_sequence_builder_t" where
  "with_nodes ts = fold (\<lambda>t s. snd (tree_sequence_builder_add_node s t 0)) ts builder_init"

definition two_nodes :: tree_sequence_builder_t where
  "two_nodes = with_nodes [2, 1]"

definition one_path :: tree_sequence_builder_t where
  "one_path = state_of (tree_sequence_builder_add_path two_nodes 1 [(0, 3, 0)] 0)"

definition nodes_of :: "tree_sequence_builder_t \<Rightarrow> nat \<times> (nat \<Rightarrow> real) \<times> (nat \<Rightarrow> 32 word)" where
  "nodes_of s = (num_nodes s, time s, node_flags s)"

text \<open>
  The state in which \<open>add_path\<close> enters path compression: the entries are allocated and
  linked into the child's path, and not yet indexed.
\<close>

definition unindexed_path ::
  "tree_sequence_builder_t \<Rightarrow> int \<Rightarrow> (int \<times> int \<times> int) list \<Rightarrow> tree_sequence_builder_t" where
  "unindexed_path s c entries =
     (case add_path_loop s c (time s (nat c)) None [] (rev entries) of
        Ok head s1 \<Rightarrow> s1\<lparr>path := (path s1)(nat c := head)\<rparr>
      | Stop _ s1 \<Rightarrow> s1)"

definition four_nodes :: tree_sequence_builder_t where
  "four_nodes = state_of (tree_sequence_builder_add_path (with_nodes [3, 3, 1, 1]) 2
                            [(2, 3, 1), (0, 2, 0)] 0)"

definition low_root :: tree_sequence_builder_t where
  "low_root = state_of (tree_sequence_builder_add_path (with_nodes [0, 5, 5, 1 / 2, 1 / 2]) 3
                          [(2, 3, 2), (0, 2, 1)] 0)"

definition close_times :: tree_sequence_builder_t where
  "close_times = state_of (tree_sequence_builder_add_path
                             (with_nodes [1 + 1 / 65536, 1 + 1 / 65536, 1, 1]) 2
                             [(2, 3, 1), (0, 2, 0)] 0)"

definition pc_built :: tree_sequence_builder_t where
  "pc_built = state_of (tree_sequence_builder_add_path four_nodes 3 [(2, 3, 1), (0, 2, 0)]
                          TSI_COMPRESS_PATH)"

definition six_nodes :: tree_sequence_builder_t where
  "six_nodes = snd (tree_sequence_builder_add_node pc_built 1 0)"

text \<open>
  The checks of \<open>add_path\<close> as the specification lists them, for the entries in processing
  order: the range of the parent, the time of the parent, and contiguity with the entry
  before. The result is the outcome of the first check that fails.
\<close>

fun first_failed_check ::
  "nat \<Rightarrow> (nat \<Rightarrow> real) \<Rightarrow> real \<Rightarrow> int option \<Rightarrow> (int \<times> int \<times> int) list \<Rightarrow> stop option" where
  "first_failed_check n tm child_time prev_right [] = None"
| "first_failed_check n tm child_time prev_right ((l, r, p) # rest) =
     (if p \<ge> int n then Some (Err TSI_ERR_BAD_PATH_PARENT)
      else if p < 0 then Some Fault
      else if tm (nat p) \<le> child_time then Some (Err TSI_ERR_BAD_PATH_TIME)
      else if (case prev_right of None \<Rightarrow> False | Some pr \<Rightarrow> pr \<noteq> l)
      then Some (Err TSI_ERR_NONCONTIGUOUS_EDGES)
      else first_failed_check n tm child_time (Some r) rest)"

definition validation_code :: "stop \<Rightarrow> bool" where
  "validation_code x \<longleftrightarrow>
     x = Err TSI_ERR_BAD_PATH_PARENT \<or> x = Err TSI_ERR_BAD_PATH_TIME
     \<or> x = Err TSI_ERR_NONCONTIGUOUS_EDGES \<or> x = Err TSI_ERR_UNSORTED_EDGES"

text \<open>
  The stops that come from inside the builder: a fault, a failed assertion other than
  the one on the head of the path in \<open>squash_edges\<close>, or \<open>ASSERTION_FAILURE\<close>.
\<close>

fun quiet :: "stop \<Rightarrow> bool" where
  "quiet (Err e) = (e = TSI_ERR_ASSERTION_FAILURE)"
| "quiet (Assert a) = (a \<noteq> Squash_head)"
| "quiet Fault = True"

text \<open>A node with a non-empty path whose chain visits no edge twice.\<close>

definition chain_ok :: "tree_sequence_builder_t \<Rightarrow> nat \<Rightarrow> bool" where
  "chain_ok s c \<longleftrightarrow> c < num_nodes s \<and> path s c \<noteq> [] \<and> distinct (path s c)"

text \<open>The edge that \<open>alloc_edge\<close> builds for an entry \<open>(left, right, parent)\<close> of a path.\<close>

definition entry_edge :: "int \<Rightarrow> real \<Rightarrow> int \<times> int \<times> int \<Rightarrow> indexed_edge_t" where
  "entry_edge c t e =
     (case e of (l, r, p) \<Rightarrow> \<lparr>left = l, right = r, parent = p, child = c, etime = t\<rparr>)"

definition chain_edges :: "(nat \<Rightarrow> indexed_edge_t option) \<Rightarrow> nat list \<Rightarrow> edge_t list" where
  "chain_edges h ch = List.map_filter (\<lambda>e. map_option edge_payload (h e)) ch"

text \<open>The edges that some index refers to.\<close>

definition indexed :: "tree_sequence_builder_t \<Rightarrow> nat set" where
  "indexed s = set (left_index s) \<union> set (right_index s) \<union> set (path_index s)"

text \<open>
  Every index entry is an allocated edge below the allocation mark, and none of them is
  an edge of the node \<open>c\<close>.
\<close>

definition no_edges_of :: "tree_sequence_builder_t \<Rightarrow> int \<Rightarrow> bool" where
  "no_edges_of s c \<longleftrightarrow>
     list_all (\<lambda>i. i < edge_heap_next s
                   \<and> (case edge_heap s i of None \<Rightarrow> False | Some e \<Rightarrow> child e \<noteq> c))
       (left_index s @ right_index s @ path_index s)"

text \<open>
  Rows \<open>(left, right, parent, child)\<close> sorted by child and, within a child, by left. The
  first argument is the \<open>(child, left)\<close> key of the row before, if there is one.
\<close>

fun rows_sorted_from :: "(int \<times> int) option \<Rightarrow> (int \<times> int \<times> int \<times> int) list \<Rightarrow> bool" where
  "rows_sorted_from k [] = True"
| "rows_sorted_from k ((l, r, p, c) # rest) =
     ((case k of None \<Rightarrow> True | Some (c', l') \<Rightarrow> c' < c \<or> (c' = c \<and> l' \<le> l))
      \<and> rows_sorted_from (Some (c, l)) rest)"

definition rows_sorted :: "(int \<times> int \<times> int \<times> int) list \<Rightarrow> bool" where
  "rows_sorted rows = rows_sorted_from None rows"

definition prev_key :: "tree_sequence_builder_t \<Rightarrow> nat option \<Rightarrow> (int \<times> int) option" where
  "prev_key s prev =
     (case prev of None \<Rightarrow> None
      | Some pr \<Rightarrow> map_option (\<lambda>pe. (child pe, left pe)) (edge_heap s pr))"

text \<open>
  What holds between two rounds of the loop of \<open>restore_edges\<close> on a builder that had
  no edges: every indexed edge is allocated, lies on a non-empty path, and comes before
  the edge of the last row in the order of the rows.
\<close>

definition restore_inv :: "tree_sequence_builder_t \<Rightarrow> nat option \<Rightarrow> int option \<Rightarrow> bool" where
  "restore_inv s prev prev_child \<longleftrightarrow>
     (case prev of
        None \<Rightarrow> prev_child = None \<and> indexed s = {} \<and> (\<forall>c. path s c = [])
      | Some pr \<Rightarrow>
          (\<exists>pe. prev_child = Some (child pe) \<and> edge_heap s pr = Some pe \<and> pr \<in> indexed s
             \<and> (\<forall>i \<in> indexed s. i < edge_heap_next s
                   \<and> (\<exists>x. edge_heap s i = Some x \<and> path s (nat (child x)) \<noteq> []
                          \<and> 0 \<le> child x \<and> left x < right x
                          \<and> (child x < child pe
                              \<or> (child x = child pe \<and> right x \<le> right pe))))))"

definition three_nodes :: tree_sequence_builder_t where
  "three_nodes = with_nodes [3, 2, 1]"

text \<open>
  The invariant behind \<open>check_state\<close>. \<open>idx_ok s I\<close>: each of the three indexes holds
  exactly the edges \<open>I\<close>, once each, all of them allocated edges of some node, no two with
  the same key in any index.
\<close>

definition path_ids :: "tree_sequence_builder_t \<Rightarrow> nat set" where
  "path_ids s = (\<Union>c \<in> {..<num_nodes s}. set (path s c))"

definition keys_differ :: "indexed_edge_t \<Rightarrow> indexed_edge_t \<Rightarrow> bool" where
  "keys_differ x y \<longleftrightarrow>
     cmp_edge_left_increasing_time x y \<noteq> 0 \<and> cmp_edge_right_decreasing_time x y \<noteq> 0
     \<and> cmp_edge_path x y \<noteq> 0"

definition idx_ok :: "tree_sequence_builder_t \<Rightarrow> nat set \<Rightarrow> bool" where
  "idx_ok s I \<longleftrightarrow>
     set (left_index s) = I \<and> set (right_index s) = I \<and> set (path_index s) = I
     \<and> distinct (left_index s) \<and> distinct (right_index s) \<and> distinct (path_index s)
     \<and> (\<forall>i \<in> I. i < edge_heap_next s \<and> (\<exists>x. edge_heap s i = Some x \<and> 0 \<le> child x))
     \<and> (\<forall>i \<in> I. \<forall>j \<in> I. \<forall>x y. edge_heap s i = Some x \<longrightarrow> edge_heap s j = Some y \<longrightarrow>
            i \<noteq> j \<longrightarrow> keys_differ x y)"

definition paths_disjoint :: "tree_sequence_builder_t \<Rightarrow> bool" where
  "paths_disjoint s \<longleftrightarrow>
     (\<forall>c < num_nodes s. distinct (path s c))
     \<and> (\<forall>c < num_nodes s. \<forall>d < num_nodes s. c \<noteq> d \<longrightarrow> set (path s c) \<inter> set (path s d) = {})
     \<and> (\<forall>c \<ge> num_nodes s. path s c = [])"

text \<open>
  \<open>edge_mark s I fresh c e\<close>: the edge \<open>e\<close> is allocated; when \<open>fresh\<close> it carries the node
  \<open>c\<close> as child and is not indexed; otherwise it is indexed and carries the node, or it
  is detached and carries \<open>NULL_NODE\<close>.
\<close>

definition edge_mark :: "tree_sequence_builder_t \<Rightarrow> nat set \<Rightarrow> bool \<Rightarrow> int \<Rightarrow> nat \<Rightarrow> bool" where
  "edge_mark s I fresh c e \<longleftrightarrow>
     e < edge_heap_next s
     \<and> (\<exists>x. edge_heap s e = Some x
            \<and> (if fresh then child x = c \<and> e \<notin> I
                else (child x = c \<and> e \<in> I) \<or> (child x = NULL_NODE \<and> e \<notin> I)))"

text \<open>
  \<open>marks_ok s I U\<close>: the edges on the path of a node in \<open>U\<close> (a path that is not indexed
  yet) are fresh, those on any other path are indexed or detached.
\<close>

definition marks_ok :: "tree_sequence_builder_t \<Rightarrow> nat set \<Rightarrow> nat set \<Rightarrow> bool" where
  "marks_ok s I U \<longleftrightarrow>
     (\<forall>c < num_nodes s. \<forall>e \<in> set (path s c). edge_mark s I (c \<in> U) (int c) e)"

definition working :: "tree_sequence_builder_t \<Rightarrow> nat set \<Rightarrow> nat set \<Rightarrow> bool" where
  "working s I U \<longleftrightarrow>
     idx_ok s I \<and> paths_disjoint s \<and> U \<subseteq> {..<num_nodes s} \<and> marks_ok s I U
     \<and> I \<subseteq> path_ids s"

definition settled :: "tree_sequence_builder_t \<Rightarrow> nat set \<Rightarrow> nat set \<Rightarrow> bool" where
  "settled s I U \<longleftrightarrow>
     working s I U \<and> (\<forall>c < num_nodes s. c \<notin> U \<longrightarrow> set (path s c) \<subseteq> I)"

text \<open>The state between calls: every path is indexed.\<close>

definition consistent :: "tree_sequence_builder_t \<Rightarrow> bool" where
  "consistent s \<longleftrightarrow> settled s (set (left_index s)) {}"

text \<open>
  What C2 asks of a state: the three counts equal the number of edges on the paths, and
  the search of \<open>check_index_integrity\<close> finds every edge of every path in each index.
\<close>

definition indexes_mirror_paths :: "tree_sequence_builder_t \<Rightarrow> bool" where
  "indexes_mirror_paths s \<longleftrightarrow>
     avl_count (left_index s) = total_edges s
     \<and> avl_count (right_index s) = total_edges s
     \<and> avl_count (path_index s) = total_edges s
     \<and> tree_sequence_builder_check_index_integrity s"


text \<open>The three indexes of a state, for statements about calls that leave them alone.\<close>

definition indexes_of :: "tree_sequence_builder_t \<Rightarrow> nat list \<times> nat list \<times> nat list" where
  "indexes_of s = (left_index s, right_index s, path_index s)"

text \<open>
  Two parents at time \<open>2^37 + 2^(-15)\<close> above two children at time \<open>2^37\<close>, where the
  binary64 values are \<open>2^(-15)\<close> apart; node 2 has the path \<open>(0,2,0), (2,3,1)\<close>.
\<close>

definition large_times :: tree_sequence_builder_t where
  "large_times = state_of (tree_sequence_builder_add_path
                             (with_nodes [2 ^ 37 + 1 / 2 ^ 15, 2 ^ 37 + 1 / 2 ^ 15, 2 ^ 37, 2 ^ 37]) 2
                             [(2, 3, 1), (0, 2, 0)] 0)"

text \<open>
  Two rows \<open>(left, right, parent, child)\<close> that \<open>restore_edges\<close> lets follow each other:
  the child does not go down and, within a child, the second row does not begin before
  the first ends. \<open>rows_clash\<close> is what the two tests of the loop compare.
\<close>

definition rows_follow :: "int \<times> int \<times> int \<times> int \<Rightarrow> int \<times> int \<times> int \<times> int \<Rightarrow> bool" where
  "rows_follow a b \<longleftrightarrow>
     (case a of (l, r, p, c) \<Rightarrow> case b of (l', r', p', c') \<Rightarrow> c \<le> c' \<and> (c = c' \<longrightarrow> r \<le> l'))"

definition rows_clash :: "int \<times> int \<times> int \<times> int \<Rightarrow> int \<times> int \<times> int \<times> int \<Rightarrow> bool" where
  "rows_clash a b \<longleftrightarrow>
     (case a of (l, r, p, c) \<Rightarrow> case b of (l', r', p', c') \<Rightarrow> c > c' \<or> r > l')"

text \<open>
  The loop variables \<open>prev\<close> and \<open>child[j - 1]\<close> of \<open>restore_edges\<close> after the row \<open>prow\<close>
  (before the first row there is none), and the paths of a builder that had none before
  the rows up to child \<open>pc\<close> were restored.
\<close>

definition restore_prev ::
  "tree_sequence_builder_t \<Rightarrow> nat option \<Rightarrow> int option \<Rightarrow> (int \<times> int \<times> int \<times> int) option
   \<Rightarrow> bool" where
  "restore_prev s prev pc prow \<longleftrightarrow>
     (case prow of
        None \<Rightarrow> prev = None \<and> pc = None
      | Some (l0, r0, p0, c0) \<Rightarrow>
          pc = Some c0 \<and> 0 \<le> c0 \<and> path s (nat c0) \<noteq> []
          \<and> (\<exists>pr pe. prev = Some pr \<and> pr < edge_heap_next s \<and> edge_heap s pr = Some pe
                \<and> right pe = r0))"

definition paths_below :: "tree_sequence_builder_t \<Rightarrow> int option \<Rightarrow> bool" where
  "paths_below s pc \<longleftrightarrow>
     (case pc of None \<Rightarrow> \<forall>d. path s d = []
      | Some c0 \<Rightarrow> \<forall>d. path s d \<noteq> [] \<longrightarrow> d \<le> nat c0)"
section \<open>Theorems\<close>

subsection \<open>Evaluation and frame lemmas\<close>

lemmas model_defs =
  state_of_def stop_of_def returns_ok_def path_edges_def builder_init_def with_nodes_def
  tree_sequence_builder_add_path_def tree_sequence_builder_add_node_def
  tree_sequence_builder_alloc_edge_def tree_sequence_builder_free_edge_def
  tree_sequence_builder_index_edge_def tree_sequence_builder_unindex_edge_def
  tree_sequence_builder_index_edges_def tree_sequence_builder_find_match_def
  tree_sequence_builder_squash_edges_def tree_sequence_builder_squash_indexed_edges_def
  tree_sequence_builder_make_pc_node_def tree_sequence_builder_compress_path_def
  tree_sequence_builder_check_state_def tree_sequence_builder_check_index_integrity_def
  tree_sequence_builder_freeze_indexes_def tree_sequence_builder_restore_edges_def
  edge_update_def edge_matches_def detach_prev_def compress_contig_def link_after_def
  edge_payload_def edge_in_indexes_def total_edges_def
  avl_count_def items_live_def avl_search_def avl_insert_node_def avl_unlink_node_def
  avl_search_closest_def cmp3_def cmp_edge_left_increasing_time_def
  cmp_edge_right_decreasing_time_def cmp_edge_path_def
  NULL_NODE_def TSI_NODE_IS_PC_ANCESTOR_def TSI_COMPRESS_PATH_def TSI_EXTENDED_CHECKS_def
  PC_ANCESTOR_INCREMENT_def valid_node_def List.map_filter_def Let_def

lemma state_of_simps [simp]: "state_of (Ok v s) = s" "state_of (Stop e s) = s"
  by (simp_all add: state_of_def)

lemma stop_of_simps [simp]: "stop_of (Ok v s) = None" "stop_of (Stop e s) = Some e"
  by (simp_all add: stop_of_def)

lemma seq_pres:
  assumes "P (state_of r) = P s"
    and "\<And>v s'. r = Ok v s' \<Longrightarrow> P (state_of (f v s')) = P s'"
  shows "P (state_of (case r of Ok v s' \<Rightarrow> f v s' | Stop e s' \<Rightarrow> Stop e s')) = P s"
  using assms by (cases r) auto

lemma nodes_of_edge_update [simp]: "nodes_of (edge_update s i f) = nodes_of s"
  by (simp add: nodes_of_def edge_update_def)

lemma nodes_of_free_edge [simp]: "nodes_of (tree_sequence_builder_free_edge s e) = nodes_of s"
  by (simp add: nodes_of_def tree_sequence_builder_free_edge_def)

lemma nodes_of_path_update [simp]: "nodes_of (s\<lparr>path := p\<rparr>) = nodes_of s"
  by (simp add: nodes_of_def)

lemma nodes_of_alloc_edge [simp]:
  "nodes_of (state_of (tree_sequence_builder_alloc_edge s l r p c)) = nodes_of s"
  by (simp add: nodes_of_def tree_sequence_builder_alloc_edge_def)

lemma nodes_of_unindex_edge [simp]:
  "nodes_of (state_of (tree_sequence_builder_unindex_edge s e)) = nodes_of s"
  by (simp add: nodes_of_def tree_sequence_builder_unindex_edge_def split: option.splits)

lemma nodes_of_index_edge [simp]:
  "nodes_of (state_of (tree_sequence_builder_index_edge s e)) = nodes_of s"
  by (simp add: nodes_of_def tree_sequence_builder_index_edge_def split: option.splits)

lemma nodes_of_index_chain [simp]: "nodes_of (state_of (index_chain s es)) = nodes_of s"
  by (induction es arbitrary: s) (simp_all add: seq_pres [where P = nodes_of])

lemma nodes_of_index_edges [simp]:
  "nodes_of (state_of (tree_sequence_builder_index_edges s node)) = nodes_of s"
  by (simp add: tree_sequence_builder_index_edges_def)

lemma nodes_of_squash_chain [simp]:
  "nodes_of (state_of (squash_chain s node prev rest)) = nodes_of s"
  by (induction rest arbitrary: s prev)
    (simp_all add: seq_pres [where P = nodes_of] split: option.splits)

lemma nodes_of_squash_edges [simp]:
  "nodes_of (state_of (tree_sequence_builder_squash_edges s node)) = nodes_of s"
  by (simp add: tree_sequence_builder_squash_edges_def seq_pres [where P = nodes_of]
      split: list.splits)

lemma nodes_of_detach_prev [simp]:
  "nodes_of (state_of (detach_prev s prev pe)) = nodes_of s"
  by (simp add: detach_prev_def seq_pres [where P = nodes_of])

lemma nodes_of_squash_indexed_chain [simp]:
  "nodes_of (state_of (squash_indexed_chain s prev rest)) = nodes_of s"
  by (induction rest arbitrary: s prev)
    (simp_all add: seq_pres [where P = nodes_of] split: option.splits)

lemma nodes_of_reindex_chain [simp]:
  "nodes_of (state_of (reindex_chain s node xs)) = nodes_of s"
  by (induction xs arbitrary: s)
    (simp_all add: seq_pres [where P = nodes_of] split: option.splits)

lemma nodes_of_squash_indexed_edges [simp]:
  "nodes_of (state_of (tree_sequence_builder_squash_indexed_edges s node)) = nodes_of s"
  by (simp add: tree_sequence_builder_squash_indexed_edges_def seq_pres [where P = nodes_of]
      split: list.splits)

lemma nodes_of_pc_edges_loop [simp]:
  "nodes_of (state_of (pc_edges_loop s pc_node chain mapped)) = nodes_of s"
proof (induction mapped arbitrary: s chain)
  case Nil
  show ?case by simp
next
  case (Cons a mapped)
  obtain source dest where a: "a = (source, dest)" by (cases a)
  show ?case
    unfolding a
    by (simp add: Cons.IH seq_pres [where P = nodes_of] split: option.splits)
qed

subsection \<open>Arithmetic on times\<close>

lemma round_ties_even_int [simp]: "round_ties_even (of_int m) = m"
  by (simp add: round_ties_even_def)

lemma floorlog2_binade:
  assumes "2 ^ k \<le> n" "n < 2 ^ Suc k"
  shows "floorlog 2 n = Suc k"
proof (rule antisym)
  show "floorlog 2 n \<le> Suc k" using assms(2) by (intro floorlog_leI) simp_all
  show "Suc k \<le> floorlog 2 n" using assms(1) by (intro floorlog_ge_SucI) simp_all
qed

lemma double_exponent_binade:
  assumes "2 powi e \<le> \<bar>x\<bar>" "\<bar>x\<bar> < 2 powi (e + 1)"
  shows "double_exponent x = e"
proof (cases "0 \<le> e")
  case True
  define k where "k = nat e"
  have e: "e = int k" using True by (simp add: k_def)
  have lo: "2 ^ k \<le> \<bar>x\<bar>" and hi: "\<bar>x\<bar> < 2 ^ Suc k"
    using assms unfolding e by (simp_all add: power_int_add)
  have one: "1 \<le> \<bar>x\<bar>" using lo one_le_power [of "2 :: real" k] by linarith
  have "(2 :: int) ^ k \<le> \<lfloor>\<bar>x\<bar>\<rfloor>" using lo by (simp add: le_floor_iff)
  then have a: "2 ^ k \<le> nat \<lfloor>\<bar>x\<bar>\<rfloor>" by (simp add: le_nat_iff)
  have "\<lfloor>\<bar>x\<bar>\<rfloor> < (2 :: int) ^ Suc k" using hi by (simp add: floor_less_iff)
  then have b: "nat \<lfloor>\<bar>x\<bar>\<rfloor> < 2 ^ Suc k" by (simp add: nat_less_iff)
  from floorlog2_binade [OF a b] one show ?thesis by (simp add: double_exponent_def e)
next
  case False
  define k where "k = nat (- e - 1)"
  have e: "e = - int (Suc k)" "e + 1 = - int k" using False by (simp_all add: k_def)
  have lo: "1 / 2 ^ Suc k \<le> \<bar>x\<bar>"
    using assms(1) unfolding e(1) power_int_minus_divide power_int_of_nat .
  have hi: "\<bar>x\<bar> < 1 / 2 ^ k"
    using assms(2) unfolding e(2) power_int_minus_divide power_int_of_nat .
  have "(0 :: real) < 1 / 2 ^ Suc k" by simp
  with lo have pos: "0 < \<bar>x\<bar>" by linarith
  have lt1: "\<not> 1 \<le> \<bar>x\<bar>"
  proof -
    have "1 / 2 ^ k \<le> (1 :: real)" by simp
    with hi show ?thesis by linarith
  qed
  have y1: "1 / \<bar>x\<bar> \<le> 2 ^ Suc k" using lo pos by (simp add: field_simps)
  have y2: "2 ^ k < 1 / \<bar>x\<bar>" using hi pos by (simp add: field_simps)
  have c1: "\<lceil>1 / \<bar>x\<bar>\<rceil> \<le> 2 ^ Suc k" using y1 by (simp add: ceiling_le_iff)
  have c2: "2 ^ k < \<lceil>1 / \<bar>x\<bar>\<rceil>" using y2 by (simp add: less_ceiling_iff)
  have a: "2 ^ k \<le> nat (\<lceil>1 / \<bar>x\<bar>\<rceil> - 1)" using c2 by (simp add: le_nat_iff)
  have b: "nat (\<lceil>1 / \<bar>x\<bar>\<rceil> - 1) < 2 ^ Suc k"
  proof -
    have "nat (\<lceil>1 / \<bar>x\<bar>\<rceil> - 1) < nat (2 ^ Suc k)"
      using c1 by (subst nat_mono_iff) simp_all
    also have "nat (2 ^ Suc k) = 2 ^ Suc k" by (simp add: nat_power_eq nat_mult_distrib)
    finally show ?thesis .
  qed
  from floorlog2_binade [OF a b] lt1 show ?thesis by (simp add: double_exponent_def e(1))
qed

lemma powi_powr: "(2 :: real) powi e = 2 powr of_int e"
  by (simp add: powr_real_of_int')

lemma double_exponent_log:
  assumes "x \<noteq> 0"
  shows "double_exponent x = \<lfloor>log 2 \<bar>x\<bar>\<rfloor>"
proof (rule double_exponent_binade)
  have pos: "0 < \<bar>x\<bar>" using assms by simp
  have "of_int \<lfloor>log 2 \<bar>x\<bar>\<rfloor> \<le> log 2 \<bar>x\<bar>" by simp
  then show "2 powi \<lfloor>log 2 \<bar>x\<bar>\<rfloor> \<le> \<bar>x\<bar>"
    unfolding powi_powr using pos by (simp add: le_log_iff del: of_int_floor_le)
  have "log 2 \<bar>x\<bar> < of_int \<lfloor>log 2 \<bar>x\<bar>\<rfloor> + 1" by linarith
  then have "\<bar>x\<bar> < 2 powr (of_int \<lfloor>log 2 \<bar>x\<bar>\<rfloor> + 1)"
    using pos by (subst (asm) log_less_iff) simp_all
  then show "\<bar>x\<bar> < 2 powi (\<lfloor>log 2 \<bar>x\<bar>\<rfloor> + 1)"
    unfolding powi_powr by simp
qed

text \<open>A value with at most 53 significant bits above \<open>2^(-1074)\<close> is not changed by rounding.\<close>

lemma double_round_exact:
  assumes "x * 2 ^ k = of_int m" "\<bar>m\<bar> < 2 ^ 53" "k \<le> 1074"
  shows "double_round x = x"
proof (cases "x = 0")
  case True
  then show ?thesis by (simp add: double_round_def)
next
  case False
  define E where "E = max (double_exponent x - 52) (- 1074)"
  have x: "x = of_int m / 2 ^ k" using assms(1) by (simp add: field_simps)
  have ax: "\<bar>x\<bar> < 2 powr (53 - real k)"
  proof -
    have "\<bar>x\<bar> = real_of_int \<bar>m\<bar> / 2 ^ k" unfolding x by simp
    also have "\<dots> < 2 ^ 53 / 2 ^ k"
      using assms(2)
      by (intro divide_strict_right_mono)
        (simp_all add: of_int_less_iff [symmetric] del: of_int_less_iff)
    also have "\<dots> = 2 powr (53 - real k)"
      by (simp add: powr_diff powr_realpow [symmetric])
    finally show ?thesis .
  qed
  have "log 2 \<bar>x\<bar> < 53 - real k" using ax False by (simp add: log_less_iff)
  then have "\<lfloor>log 2 \<bar>x\<bar>\<rfloor> < 53 - int k" by (simp add: floor_less_iff)
  then have "double_exponent x < 53 - int k" by (simp add: double_exponent_log [OF False])
  then have E: "E \<le> - int k" unfolding E_def using assms(3) by simp
  define d where "d = nat (- int k - E)"
  have u: "double_ulp x = 2 powr of_int E" by (simp add: double_ulp_def E_def powi_powr)
  have "x / 2 powr of_int E = of_int m * 2 powr (- real k - of_int E)"
    unfolding x by (simp add: powr_diff powr_minus powr_realpow [symmetric] field_simps)
  also have "- real k - of_int E = real d" unfolding d_def using E by simp
  also have "of_int m * 2 powr real d = of_int (m * 2 ^ d)" by (simp add: powr_realpow)
  finally have q: "x / 2 powr of_int E = of_int (m * 2 ^ d)" .
  have "double_round x = of_int (m * 2 ^ d) * 2 powr of_int E"
    using False by (simp only: double_round_def u q round_ties_even_int if_False)
  also have "\<dots> = x" using q by (simp add: field_simps)
  finally show ?thesis .
qed

text \<open>In particular the multiples of \<open>2^(-16)\<close> below \<open>2^37\<close> are exact.\<close>

lemma double_round_16 [simp]:
  assumes "x * 65536 \<in> \<int>" "\<bar>x\<bar> < 2 ^ 37"
  shows "double_round x = x"
proof -
  from assms(1) obtain m where m: "x * 65536 = of_int m" by (auto elim: Ints_cases)
  have "\<bar>real_of_int m\<bar> < 2 ^ 37 * 65536" using assms(2) m [symmetric] by (simp add: abs_mult)
  then have "\<bar>m\<bar> < 2 ^ 53" by (simp add: of_int_less_iff [symmetric] del: of_int_less_iff)
  moreover have "x * 2 ^ 16 = of_int m" using m by simp
  ultimately show ?thesis by (intro double_round_exact [where k = 16 and m = m]) simp_all
qed

text \<open>
  Above \<open>2^37\<close> the subtraction of \<open>2^(-16)\<close> rounds: the binary64 neighbours of \<open>2^37\<close>
  are \<open>2^(-15)\<close> apart, and the difference below lies half way between two of them.
\<close>

lemma double_round_tie: "double_round (2 ^ 37 + 1 / 2 ^ 15 - 1 / 65536) = 2 ^ 37"
proof -
  let ?x = "2 ^ 37 + 1 / 2 ^ 15 - 1 / 65536 :: real"
  have b: "2 powi 37 \<le> \<bar>?x\<bar>" "\<bar>?x\<bar> < 2 powi (37 + 1)" by simp_all
  have u: "double_ulp ?x = 1 / 2 ^ 15"
    unfolding double_ulp_def double_exponent_binade [OF b]
    by (simp add: power_int_minus_divide)
  have "?x / (1 / 2 ^ 15) = 2 ^ 52 + 1 / 2" by simp
  moreover have "round_ties_even (2 ^ 52 + 1 / 2) = 2 ^ 52"
  proof -
    have "\<lfloor>2 ^ 52 + 1 / 2 :: real\<rfloor> = 2 ^ 52" by (rule floor_unique) simp_all
    then show ?thesis by (simp add: round_ties_even_def Let_def)
  qed
  ultimately show ?thesis unfolding double_round_def u by simp
qed

text \<open>
  Where the binary64 values are further apart than \<open>1/65536\<close> the subtraction rounds:
  the candidate time \<open>(2^37 + 2^(-15)) - 2^(-16)\<close> becomes \<open>2^37\<close>, the time of the
  existing child, and path compression returns \<open>ASSERTION_FAILURE\<close>.
\<close>

lemma make_pc_node_rounds:
  "stop_of (tree_sequence_builder_add_path large_times 3 [(2, 3, 1), (0, 2, 0)] TSI_COMPRESS_PATH)
     = Some (Err TSI_ERR_ASSERTION_FAILURE)
   \<and> num_nodes (state_of (tree_sequence_builder_add_path large_times 3 [(2, 3, 1), (0, 2, 0)]
        TSI_COMPRESS_PATH)) = 4"
proof -
  have a: "double_round (2 ^ 37 + 1 / 2 ^ 15 + 1) = 2 ^ 37 + 1 / 2 ^ 15 + 1"
    by (rule double_round_exact [where k = 15 and m = "2 ^ 52 + 2 ^ 15 + 1"]) simp_all
  show ?thesis
    using a double_round_tie
    by (simp add: large_times_def model_defs)
qed

subsection \<open>Which stops the operations produce\<close>

lemma quiet_alloc_edge:
  "tree_sequence_builder_alloc_edge s l r p c = Stop x s' \<Longrightarrow> quiet x"
  by (auto simp: tree_sequence_builder_alloc_edge_def split: if_splits)

lemma quiet_unindex_edge:
  "tree_sequence_builder_unindex_edge s e = Stop x s' \<Longrightarrow> quiet x"
  by (auto simp: tree_sequence_builder_unindex_edge_def split: if_splits option.splits)

lemma quiet_index_edge:
  "tree_sequence_builder_index_edge s e = Stop x s' \<Longrightarrow> quiet x"
  by (auto simp: tree_sequence_builder_index_edge_def split: if_splits option.splits)

lemma quiet_index_chain: "index_chain s es = Stop x s' \<Longrightarrow> quiet x"
  by (induction es arbitrary: s) (auto split: res.splits dest: quiet_index_edge)

lemma quiet_index_edges:
  "tree_sequence_builder_index_edges s node = Stop x s' \<Longrightarrow> quiet x"
  by (auto simp: tree_sequence_builder_index_edges_def split: if_splits dest: quiet_index_chain)

lemma quiet_squash_chain: "squash_chain s node prev rest = Stop x s' \<Longrightarrow> quiet x"
  by (induction rest arbitrary: s prev) (auto split: res.splits option.splits if_splits)

lemma quiet_squash_edges:
  "tree_sequence_builder_squash_edges s node = Stop x s' \<Longrightarrow> path s (nat node) \<noteq> [] \<Longrightarrow> quiet x"
  by (auto simp: tree_sequence_builder_squash_edges_def
      split: res.splits list.splits if_splits dest: quiet_squash_chain)

lemma quiet_detach_prev: "detach_prev s prev pe = Stop x s' \<Longrightarrow> quiet x"
  by (auto simp: detach_prev_def split: res.splits if_splits dest: quiet_unindex_edge)

lemma quiet_squash_indexed_chain: "squash_indexed_chain s prev rest = Stop x s' \<Longrightarrow> quiet x"
  by (induction rest arbitrary: s prev)
    (auto split: res.splits option.splits if_splits dest: quiet_unindex_edge quiet_detach_prev)

lemma quiet_reindex_chain: "reindex_chain s node xs = Stop x s' \<Longrightarrow> quiet x"
  by (induction xs arbitrary: s)
    (auto split: res.splits option.splits if_splits dest: quiet_index_edge)

lemma quiet_squash_indexed_edges:
  "tree_sequence_builder_squash_indexed_edges s node = Stop x s' \<Longrightarrow> quiet x"
  by (auto simp: tree_sequence_builder_squash_indexed_edges_def
      split: res.splits list.splits if_splits
      dest: quiet_squash_indexed_chain quiet_reindex_chain)

lemma quiet_find_match: "tree_sequence_builder_find_match s q = Stop x s' \<Longrightarrow> quiet x"
  by (auto simp: tree_sequence_builder_find_match_def Let_def split: option.splits if_splits)

lemma quiet_match_loop: "match_loop s lm mapped offs es = Stop x s' \<Longrightarrow> quiet x"
  by (induction es arbitrary: lm mapped offs)
    (auto split: res.splits option.splits if_splits dest: quiet_find_match)

lemma quiet_min_parent_time_loop:
  "min_parent_time_loop s mc m mapped = Stop x s' \<Longrightarrow> quiet x"
proof (induction mapped arbitrary: m mc)
  case Nil
  then show ?case by simp
next
  case (Cons a mapped)
  obtain source dest where a: "a = (source, dest)" by (cases a)
  from Cons.prems show ?case
    unfolding a by (auto split: option.splits if_splits dest: Cons.IH)
qed

lemma quiet_pc_edges_loop:
  "pc_edges_loop s pc chain mapped = Stop x s' \<Longrightarrow> quiet x"
proof (induction mapped arbitrary: s chain)
  case Nil
  then show ?case by simp
next
  case (Cons a mapped)
  obtain source dest where a: "a = (source, dest)" by (cases a)
  from Cons.prems show ?case
    unfolding a
    by (auto split: option.splits res.splits
        dest: Cons.IH quiet_alloc_edge quiet_unindex_edge)
qed

lemma pc_edges_loop_chain:
  "pc_edges_loop s pc chain mapped = Ok head s' \<Longrightarrow> length head = length chain + length mapped"
proof (induction mapped arbitrary: s chain)
  case Nil
  then show ?case by simp
next
  case (Cons a mapped)
  obtain source dest where a: "a = (source, dest)" by (cases a)
  from Cons.prems show ?case
    unfolding a by (auto split: option.splits res.splits dest: Cons.IH)
qed

lemma quiet_remap_loop: "remap_loop s mc contig = Stop x s' \<Longrightarrow> quiet x"
proof (induction contig arbitrary: s)
  case Nil
  then show ?case by simp
next
  case (Cons a contig)
  obtain source dest where a: "a = (source, dest)" by (cases a)
  from Cons.prems show ?case
    unfolding a by (auto split: option.splits dest: Cons.IH)
qed

lemma quiet_make_pc_node:
  assumes "tree_sequence_builder_make_pc_node s mapped = Stop x s'"
  shows "quiet x"
proof (cases mapped)
  case Nil
  with assms show ?thesis by (simp add: tree_sequence_builder_make_pc_node_def)
next
  case (Cons a rest)
  obtain source0 dest0 where a: "a = (source0, dest0)" by (cases a)
  have ne: "length head \<noteq> 0" if "pc_edges_loop s1 pc [] mapped = Ok head s2" for s1 pc head s2
    using pc_edges_loop_chain [OF that] Cons by simp
  from assms show ?thesis
    unfolding tree_sequence_builder_make_pc_node_def Cons a
    apply (auto split: option.splits if_splits res.splits prod.splits simp: Let_def
        tree_sequence_builder_add_node_def
        simp del: min_parent_time_loop.simps pc_edges_loop.simps
        dest: quiet_min_parent_time_loop quiet_pc_edges_loop quiet_squash_indexed_edges
          quiet_index_edges)
    apply (frule pc_edges_loop_chain)
    apply (erule quiet_squash_edges)
    apply auto
    done
qed

lemma quiet_compress_contig: "compress_contig s contig = Stop x s' \<Longrightarrow> quiet x"
  by (auto simp: compress_contig_def Let_def split: option.splits if_splits
      dest: quiet_remap_loop quiet_make_pc_node)

lemma quiet_contig_loop: "contig_loop s mapped offs = Stop x s' \<Longrightarrow> quiet x"
  by (induction s mapped offs rule: contig_loop.induct)
    (auto split: res.splits dest: quiet_compress_contig)

lemma stops_compress_path:
  "tree_sequence_builder_compress_path s c = Stop x s' \<Longrightarrow> quiet x \<or> x = Assert Squash_head"
  by (auto simp: tree_sequence_builder_compress_path_def tree_sequence_builder_squash_edges_def
      split: res.splits if_splits prod.splits list.splits
      dest: quiet_match_loop quiet_contig_loop quiet_squash_chain)


subsection \<open>Operations that leave the paths alone\<close>

lemma path_edge_update [simp]: "path (edge_update s i f) = path s"
  by (simp add: edge_update_def)

lemma path_free_edge [simp]: "path (tree_sequence_builder_free_edge s e) = path s"
  by (simp add: tree_sequence_builder_free_edge_def)

lemma path_alloc_edge [simp]:
  "path (state_of (tree_sequence_builder_alloc_edge s l r p c)) = path s"
  by (simp add: tree_sequence_builder_alloc_edge_def)

lemma path_unindex_edge [simp]:
  "path (state_of (tree_sequence_builder_unindex_edge s e)) = path s"
  by (simp add: tree_sequence_builder_unindex_edge_def split: option.splits)

lemma path_index_edge [simp]:
  "path (state_of (tree_sequence_builder_index_edge s e)) = path s"
  by (simp add: tree_sequence_builder_index_edge_def split: option.splits)

lemma path_index_chain [simp]: "path (state_of (index_chain s es)) = path s"
  by (induction es arbitrary: s) (simp_all add: seq_pres [where P = path])

lemma path_index_edges [simp]:
  "path (state_of (tree_sequence_builder_index_edges s node)) = path s"
  by (simp add: tree_sequence_builder_index_edges_def)

lemma path_squash_chain [simp]: "path (state_of (squash_chain s node prev rest)) = path s"
  by (induction rest arbitrary: s prev)
    (simp_all add: seq_pres [where P = path] split: option.splits)

lemma path_detach_prev [simp]: "path (state_of (detach_prev s prev pe)) = path s"
  by (simp add: detach_prev_def seq_pres [where P = path])

lemma path_squash_indexed_chain [simp]:
  "path (state_of (squash_indexed_chain s prev rest)) = path s"
  by (induction rest arbitrary: s prev)
    (simp_all add: seq_pres [where P = path] split: option.splits)

lemma path_reindex_chain [simp]: "path (state_of (reindex_chain s node xs)) = path s"
  by (induction xs arbitrary: s)
    (simp_all add: seq_pres [where P = path] split: option.splits)

lemma path_pc_edges_loop [simp]:
  "path (state_of (pc_edges_loop s pc_node chain mapped)) = path s"
proof (induction mapped arbitrary: s chain)
  case Nil
  show ?case by simp
next
  case (Cons a mapped)
  obtain source dest where a: "a = (source, dest)" by (cases a)
  show ?case
    unfolding a by (simp add: Cons.IH seq_pres [where P = path] split: option.splits)
qed

lemma remap_loop_frame:
  "path (state_of (remap_loop s mc contig)) = path s
   \<and> nodes_of (state_of (remap_loop s mc contig)) = nodes_of s"
proof (induction contig arbitrary: s)
  case Nil
  show ?case by simp
next
  case (Cons a contig)
  obtain source dest where a: "a = (source, dest)" by (cases a)
  show ?case
    unfolding a by (simp add: Cons.IH split: option.splits)
qed

subsection \<open>The shape of a squashed chain\<close>

lemma squash_chain_shape:
  "squash_chain s node prev rest = Ok ch s' \<Longrightarrow>
     \<exists>tl. ch = prev # tl \<and> set tl \<subseteq> set rest \<and> (distinct (prev # rest) \<longrightarrow> distinct ch)"
proof (induction rest arbitrary: s prev ch)
  case Nil
  then show ?case by simp
next
  case (Cons x rest)
  from Cons.prems obtain xe pe where
    xe: "edge_heap s x = Some xe" "child xe = node" and pe: "edge_heap s prev = Some pe"
    by (auto split: option.splits if_splits)
  show ?case
  proof (cases "right pe = left xe \<and> parent pe = parent xe")
    case True
    with Cons.prems xe pe have
      "squash_chain (tree_sequence_builder_free_edge
          (edge_update s prev (\<lambda>e. e\<lparr>right := right xe\<rparr>)) x) node prev rest = Ok ch s'"
      by simp
    from Cons.IH [OF this] show ?thesis by auto
  next
    case False
    with Cons.prems xe pe obtain ch' where
      r: "squash_chain s node x rest = Ok ch' s'" and ch: "ch = prev # ch'"
      by (auto split: res.splits)
    from Cons.IH [OF r] show ?thesis unfolding ch by auto
  qed
qed

lemma squash_indexed_chain_shape:
  "squash_indexed_chain s prev rest = Ok ch s' \<Longrightarrow>
     \<exists>tl. ch = prev # tl \<and> set tl \<subseteq> set rest \<and> (distinct (prev # rest) \<longrightarrow> distinct ch)"
proof (induction rest arbitrary: s prev ch)
  case Nil
  then show ?case by simp
next
  case (Cons x rest)
  from Cons.prems obtain xe pe where
    xe: "edge_heap s x = Some xe" and pe: "edge_heap s prev = Some pe"
    by (auto split: option.splits if_splits)
  show ?case
  proof (cases "right pe = left xe \<and> parent pe = parent xe")
    case True
    with Cons.prems xe pe obtain s2 where
      "squash_indexed_chain s2 prev rest = Ok ch s'"
      by (auto split: res.splits)
    from Cons.IH [OF this] show ?thesis by auto
  next
    case False
    with Cons.prems xe pe obtain ch' where
      r: "squash_indexed_chain s x rest = Ok ch' s'" and ch: "ch = prev # ch'"
      by (auto split: res.splits)
    from Cons.IH [OF r] show ?thesis unfolding ch by auto
  qed
qed

subsection \<open>Paths that stay non-empty through path compression\<close>

lemma chain_ok_cong:
  "chain_ok s c \<Longrightarrow> nodes_of s' = nodes_of s \<Longrightarrow> path s' = path s \<Longrightarrow> chain_ok s' c"
  by (simp add: chain_ok_def nodes_of_def)

lemma chain_ok_squash_edges:
  assumes "chain_ok s c" "tree_sequence_builder_squash_edges s node = Ok u s'"
  shows "chain_ok s' c"
proof -
  from assms(2) obtain prev rest ch s1 where
    p: "path s (nat node) = prev # rest" and
    sq: "squash_chain s node prev rest = Ok ch s1" and
    s': "s' = s1\<lparr>path := (path s1)(nat node := ch)\<rparr>"
    by (auto simp: tree_sequence_builder_squash_edges_def
        split: if_splits list.splits res.splits)
  have fr: "path s1 = path s" "nodes_of s1 = nodes_of s"
    using path_squash_chain [of s node prev rest] nodes_of_squash_chain [of s node prev rest] sq
    by simp_all
  from squash_chain_shape [OF sq] obtain tl where
    ch: "ch = prev # tl" "distinct (prev # rest) \<longrightarrow> distinct ch" by blast
  show ?thesis
    using assms(1) fr ch p unfolding s' chain_ok_def nodes_of_def by auto
qed

lemma chain_ok_squash_indexed_edges:
  assumes "chain_ok s c" "tree_sequence_builder_squash_indexed_edges s node = Ok u s'"
  shows "chain_ok s' c"
proof -
  from assms(2) obtain prev rest ch s1 where
    p: "path s (nat node) = prev # rest" and
    sq: "squash_indexed_chain s prev rest = Ok ch s1" and
    re: "reindex_chain (s1\<lparr>path := (path s1)(nat node := ch)\<rparr>) node ch = Ok u s'"
    by (auto simp: tree_sequence_builder_squash_indexed_edges_def
        split: if_splits list.splits res.splits)
  have fr: "path s1 = path s" "nodes_of s1 = nodes_of s"
    using path_squash_indexed_chain [of s prev rest] nodes_of_squash_indexed_chain [of s prev rest] sq
    by simp_all
  from squash_indexed_chain_shape [OF sq] obtain tl where
    ch: "ch = prev # tl" "distinct (prev # rest) \<longrightarrow> distinct ch" by blast
  have mid: "chain_ok (s1\<lparr>path := (path s1)(nat node := ch)\<rparr>) c"
    using assms(1) fr ch p unfolding chain_ok_def nodes_of_def by auto
  have last: "path s' = path (s1\<lparr>path := (path s1)(nat node := ch)\<rparr>)"
    "nodes_of s' = nodes_of (s1\<lparr>path := (path s1)(nat node := ch)\<rparr>)"
    using path_reindex_chain [of "s1\<lparr>path := (path s1)(nat node := ch)\<rparr>" node ch]
      nodes_of_reindex_chain [of "s1\<lparr>path := (path s1)(nat node := ch)\<rparr>" node ch] re
    by simp_all
  show ?thesis by (rule chain_ok_cong [OF mid last(2) last(1)])
qed

lemma add_node_fst [simp]:
  "fst (tree_sequence_builder_add_node s t f) = int (num_nodes s)"
  by (simp add: tree_sequence_builder_add_node_def)

lemma chain_ok_add_node:
  "chain_ok s c \<Longrightarrow> chain_ok (snd (tree_sequence_builder_add_node s t f)) c"
  by (simp add: chain_ok_def tree_sequence_builder_add_node_def)

lemma chain_ok_other_path:
  "chain_ok s c \<Longrightarrow> c \<noteq> n \<Longrightarrow> chain_ok (s\<lparr>path := (path s)(n := p)\<rparr>) c"
  by (simp add: chain_ok_def)

lemma chain_ok_make_pc_node:
  assumes "chain_ok s c" "tree_sequence_builder_make_pc_node s mapped = Ok u s'"
  shows "chain_ok s' c"
proof -
  from assms(2) obtain t mc head s2 s3 s4 where
    pc: "pc_edges_loop (snd (tree_sequence_builder_add_node s t TSI_NODE_IS_PC_ANCESTOR))
           (int (num_nodes s)) [] mapped = Ok head s2" and
    sq: "tree_sequence_builder_squash_edges (s2\<lparr>path := (path s2)(num_nodes s := head)\<rparr>)
           (int (num_nodes s)) = Ok () s3" and
    si: "tree_sequence_builder_squash_indexed_edges s3 mc = Ok () s4" and
    ix: "tree_sequence_builder_index_edges s4 (int (num_nodes s)) = Ok u s'"
    by (auto simp: tree_sequence_builder_make_pc_node_def Let_def case_prod_unfold
        split: list.splits option.splits if_splits res.splits
        simp del: min_parent_time_loop.simps pc_edges_loop.simps)
  let ?s1 = "snd (tree_sequence_builder_add_node s t TSI_NODE_IS_PC_ANCESTOR)"
  have c1: "chain_ok ?s1 c" by (rule chain_ok_add_node [OF assms(1)])
  have "path s2 = path ?s1" "nodes_of s2 = nodes_of ?s1"
    using path_pc_edges_loop [of ?s1 "int (num_nodes s)" "[]" mapped]
      nodes_of_pc_edges_loop [of ?s1 "int (num_nodes s)" "[]" mapped] pc by simp_all
  then have c2: "chain_ok s2 c" by (rule chain_ok_cong [OF c1, rotated])
  have "c \<noteq> num_nodes s" using assms(1) by (simp add: chain_ok_def)
  then have "chain_ok (s2\<lparr>path := (path s2)(num_nodes s := head)\<rparr>) c"
    by (rule chain_ok_other_path [OF c2])
  then have c3: "chain_ok s3 c" by (rule chain_ok_squash_edges [OF _ sq])
  have c4: "chain_ok s4 c" by (rule chain_ok_squash_indexed_edges [OF c3 si])
  have "path s' = path s4" "nodes_of s' = nodes_of s4"
    using path_index_edges [of s4 "int (num_nodes s)"]
      nodes_of_index_edges [of s4 "int (num_nodes s)"] ix by simp_all
  then show ?thesis by (rule chain_ok_cong [OF c4, rotated])
qed

lemma chain_ok_compress_contig:
  assumes "chain_ok s c" "compress_contig s contig = Ok u s'"
  shows "chain_ok s' c"
proof (cases "length contig > 1")
  case False
  with assms show ?thesis by (simp add: compress_contig_def)
next
  case True
  from assms(2) True obtain mc where
    "remap_loop s mc contig = Ok u s' \<or> tree_sequence_builder_make_pc_node s contig = Ok u s'"
    by (auto simp: compress_contig_def Let_def split: option.splits if_splits)
  then show ?thesis
  proof
    assume r: "remap_loop s mc contig = Ok u s'"
    have "path s' = path s" "nodes_of s' = nodes_of s"
      using remap_loop_frame [of s mc contig] r by simp_all
    then show ?thesis by (rule chain_ok_cong [OF assms(1), rotated])
  next
    assume "tree_sequence_builder_make_pc_node s contig = Ok u s'"
    then show ?thesis by (rule chain_ok_make_pc_node [OF assms(1)])
  qed
qed

lemma chain_ok_contig_loop:
  "chain_ok s c \<Longrightarrow> contig_loop s mapped offs = Ok u s' \<Longrightarrow> chain_ok s' c"
  by (induction s mapped offs rule: contig_loop.induct)
    (auto split: res.splits dest: chain_ok_compress_contig)


lemma quiet_compress_path:
  assumes "chain_ok s (nat c)" "tree_sequence_builder_compress_path s c = Stop x s'"
  shows "quiet x"
proof -
  have sq: "quiet x" if "contig_loop s mapped offs = Ok u s1"
    "tree_sequence_builder_squash_edges s1 c = Stop x s'" for mapped offs u s1
  proof -
    have "chain_ok s1 (nat c)" by (rule chain_ok_contig_loop [OF assms(1) that(1)])
    then have "path s1 (nat c) \<noteq> []" by (simp add: chain_ok_def)
    with that(2) show ?thesis by (rule quiet_squash_edges)
  qed
  from assms(2) show ?thesis
    by (auto simp: tree_sequence_builder_compress_path_def
        split: if_splits res.splits prod.splits
        dest: quiet_match_loop quiet_contig_loop sq)
qed

subsection \<open>The loop of add\_path\<close>

lemma add_path_loop_result:
  assumes "add_path_loop s c ct prev chain es = Ok head s1" "prev = None \<longrightarrow> chain = []"
  shows "head = chain @ [edge_heap_next s ..< edge_heap_next s + length es]
       \<and> s1 = s\<lparr>edge_heap :=
                  (\<lambda>j. if edge_heap_next s \<le> j \<and> j < edge_heap_next s + length es
                       then Some (entry_edge c (time s (nat c)) (es ! (j - edge_heap_next s)))
                       else edge_heap s j),
                edge_heap_next := edge_heap_next s + length es,
                edge_heap_allocated := edge_heap_allocated s + length es\<rparr>"
  using assms
proof (induction es arbitrary: s prev chain)
  case Nil
  then have "head = chain" "s1 = s" by simp_all
  moreover have "(\<lambda>j. if edge_heap_next s \<le> j \<and> j < edge_heap_next s + length ([] :: (int \<times> int \<times> int) list)
                       then Some (entry_edge c (time s (nat c)) ([] ! (j - edge_heap_next s)))
                       else edge_heap s j) = edge_heap s"
    by (auto simp: fun_eq_iff)
  ultimately show ?case by simp
next
  case (Cons a es)
  obtain l r p where a: "a = (l, r, p)" by (cases a)
  let ?n = "edge_heap_next s"
  let ?s' = "s\<lparr>edge_heap := (edge_heap s)(?n \<mapsto> entry_edge c (time s (nat c)) a),
               edge_heap_next := ?n + 1,
               edge_heap_allocated := edge_heap_allocated s + 1\<rparr>"
  from Cons.prems have rec: "add_path_loop ?s' c ct (Some ?n) (chain @ [?n]) es = Ok head s1"
    unfolding a
    by (auto simp: tree_sequence_builder_alloc_edge_def entry_edge_def
        split: if_splits option.splits res.splits)
  have IH: "head = (chain @ [?n]) @ [edge_heap_next ?s' ..< edge_heap_next ?s' + length es]
       \<and> s1 = ?s'\<lparr>edge_heap :=
                  (\<lambda>j. if edge_heap_next ?s' \<le> j \<and> j < edge_heap_next ?s' + length es
                       then Some (entry_edge c (time ?s' (nat c)) (es ! (j - edge_heap_next ?s')))
                       else edge_heap ?s' j),
                edge_heap_next := edge_heap_next ?s' + length es,
                edge_heap_allocated := edge_heap_allocated ?s' + length es\<rparr>"
    by (rule Cons.IH [OF rec]) simp
  have u: "[?n ..< ?n + length (a # es)] = ?n # [Suc ?n ..< Suc ?n + length es]"
  proof -
    have "?n < ?n + length (a # es)" by simp
    from upt_conv_Cons [OF this] show ?thesis by (simp del: upt_Suc)
  qed
  have h: "head = chain @ [?n ..< ?n + length (a # es)]"
    unfolding u using IH by (simp del: upt_Suc)
  have eq: "(\<lambda>j. if edge_heap_next ?s' \<le> j \<and> j < edge_heap_next ?s' + length es
                       then Some (entry_edge c (time ?s' (nat c)) (es ! (j - edge_heap_next ?s')))
                       else edge_heap ?s' j)
          = (\<lambda>j. if ?n \<le> j \<and> j < ?n + length (a # es)
                       then Some (entry_edge c (time s (nat c)) ((a # es) ! (j - ?n)))
                       else edge_heap s j)"
    by (auto simp: fun_eq_iff nth_Cons' Suc_diff_Suc)
  have "s1 = s\<lparr>edge_heap := (\<lambda>j. if ?n \<le> j \<and> j < ?n + length (a # es)
                       then Some (entry_edge c (time s (nat c)) ((a # es) ! (j - ?n)))
                       else edge_heap s j),
                edge_heap_next := ?n + length (a # es),
                edge_heap_allocated := edge_heap_allocated s + length (a # es)\<rparr>"
    using IH unfolding eq by simp
  with h show ?case by blast
qed

lemma add_path_loop_stops:
  "add_path_loop s c ct prev chain es = Stop x s' \<Longrightarrow> validation_code x \<or> quiet x"
proof (induction es arbitrary: s prev chain)
  case Nil
  then show ?case by simp
next
  case (Cons a es)
  obtain l r p where a: "a = (l, r, p)" by (cases a)
  from Cons.prems show ?case
    unfolding a
    by (auto simp: validation_code_def split: if_splits option.splits res.splits
        dest: quiet_alloc_edge Cons.IH)
qed

subsection \<open>C1: the time of a new path-compression ancestor\<close>

text \<open>The value computed by the first loop of make_pc_node.\<close>

lemma min_parent_time_loop_fold:
  assumes "map (\<lambda>(source, dest). edge_heap s source) mapped = map Some ses"
    and "\<forall>(source, dest) \<in> set mapped. map_option child (edge_heap s dest) = Some mc"
    and "\<forall>se \<in> set ses. valid_node s (parent se)"
  shows "min_parent_time_loop s mc m mapped
         = Ok (fold min (map (\<lambda>se. time s (nat (parent se))) ses) m) s"
  using assms
proof (induction mapped arbitrary: m ses)
  case Nil
  then show ?case by simp
next
  case (Cons a mapped)
  obtain source dest where a: "a = (source, dest)" by (cases a)
  from Cons.prems(1) obtain se ses' where ses: "ses = se # ses'"
    and se: "edge_heap s source = Some se"
    and rest: "map (\<lambda>(source, dest). edge_heap s source) mapped = map Some ses'"
    unfolding a by (cases ses) auto
  from Cons.prems(2) obtain de where de: "edge_heap s dest = Some de" "child de = mc"
    unfolding a by auto
  have v: "valid_node s (parent se)" using Cons.prems(3) ses by simp
  have IH: "min_parent_time_loop s mc (min m (time s (nat (parent se)))) mapped
      = Ok (fold min (map (\<lambda>se. time s (nat (parent se))) ses') (min m (time s (nat (parent se))))) s"
    using Cons.IH [OF rest] Cons.prems(2,3) ses by simp
  show ?case unfolding a ses by (simp add: se de v IH min.commute)
qed

lemma min_parent_time_loop_value:
  assumes "map (\<lambda>(source, dest). edge_heap s source) mapped = map Some ses"
    and "\<forall>(source, dest) \<in> set mapped. map_option child (edge_heap s dest) = Some mc"
    and "\<forall>se \<in> set ses. valid_node s (parent se)"
  shows "min_parent_time_loop s mc m mapped
         = Ok (Min (set (m # map (\<lambda>se. time s (nat (parent se))) ses))) s"
  using min_parent_time_loop_fold [OF assms] by (simp only: Min.set_eq_fold)


lemma nodes_of_pc_tail:
  "nodes_of (state_of
     (case pc_edges_loop s1 pc_node [] mapped of
        Ok head s2 \<Rightarrow>
          (case tree_sequence_builder_squash_edges
                  (s2\<lparr>path := (path s2)(nat pc_node := head)\<rparr>) pc_node of
             Ok _ s3 \<Rightarrow>
               (case tree_sequence_builder_squash_indexed_edges s3 mapped_child of
                  Ok _ s4 \<Rightarrow> tree_sequence_builder_index_edges s4 pc_node
                | Stop e s4 \<Rightarrow> Stop e s4)
           | Stop e s3 \<Rightarrow> Stop e s3)
      | Stop e s2 \<Rightarrow> Stop e s2)) = nodes_of s1"
  by (intro seq_pres [where P = nodes_of]) simp_all

lemma make_pc_node_unfold:
  assumes "mapped = (source0, dest0) # rest" "edge_heap s dest0 = Some d0"
    "valid_node s (child d0)"
    "min_parent_time_loop s (child d0) (double_round (time s 0 + 1)) mapped = Ok m s0"
  shows "tree_sequence_builder_make_pc_node s mapped
      = (if double_round (m - 1 / 65536) \<le> time s (nat (child d0))
         then Stop (Err TSI_ERR_ASSERTION_FAILURE) s
         else
           (case tree_sequence_builder_add_node s (double_round (m - 1 / 65536)) TSI_NODE_IS_PC_ANCESTOR of
             (pc_node, s1) \<Rightarrow>
               (case pc_edges_loop s1 pc_node [] mapped of
                  Ok head s2 \<Rightarrow>
                    (case tree_sequence_builder_squash_edges
                            (s2\<lparr>path := (path s2)(nat pc_node := head)\<rparr>) pc_node of
                       Ok _ s3 \<Rightarrow>
                         (case tree_sequence_builder_squash_indexed_edges s3 (child d0) of
                            Ok _ s4 \<Rightarrow> tree_sequence_builder_index_edges s4 pc_node
                          | Stop e s4 \<Rightarrow> Stop e s4)
                     | Stop e s3 \<Rightarrow> Stop e s3)
                | Stop e s2 \<Rightarrow> Stop e s2)))"
  using assms
  by (simp add: tree_sequence_builder_make_pc_node_def PC_ANCESTOR_INCREMENT_def Let_def
      del: min_parent_time_loop.simps pc_edges_loop.simps)

text \<open>
  What \<open>make_pc_node\<close> does with its contig: the candidate time is the minimum of
  \<open>time(node 0) + 1\<close> and of the times of the parents of the contig's source edges, minus
  \<open>1/65536\<close>, both operations in binary64. If the candidate is not strictly greater than
  the time of the shared existing child, the call returns \<open>ASSERTION_FAILURE\<close> and leaves
  the state as it was. Otherwise exactly one node is added, with the candidate as its
  time and the flag \<open>IS_PC_ANCESTOR\<close>.
\<close>

lemma make_pc_node_result:
  assumes live: "map (\<lambda>(source, dest). edge_heap s source) mapped = map Some ses"
    and dests: "\<forall>(source, dest) \<in> set mapped. map_option child (edge_heap s dest) = Some mc"
    and ne: "mapped \<noteq> []"
    and mc: "valid_node s mc"
    and par: "\<forall>se \<in> set ses. valid_node s (parent se)"
  shows "let t = double_round
               (Min (set (double_round (time s 0 + 1) # map (\<lambda>se. time s (nat (parent se))) ses))
                - 1 / 65536);
             r = tree_sequence_builder_make_pc_node s mapped
         in (t \<le> time s (nat mc) \<longrightarrow> r = Stop (Err TSI_ERR_ASSERTION_FAILURE) s)
          \<and> (time s (nat mc) < t \<longrightarrow>
               num_nodes (state_of r) = num_nodes s + 1
               \<and> time (state_of r) (num_nodes s) = t
               \<and> node_flags (state_of r) (num_nodes s) = TSI_NODE_IS_PC_ANCESTOR
               \<and> (\<forall>i < num_nodes s. time (state_of r) i = time s i))"
proof -
  define m where "m = Min (set ((double_round (time s 0 + 1)) # map (\<lambda>se. time s (nat (parent se))) ses))"
  obtain source0 dest0 rest where mapped: "mapped = (source0, dest0) # rest"
    using ne by (cases mapped) auto
  obtain d0 where d0: "edge_heap s dest0 = Some d0" "child d0 = mc"
    using dests mapped by auto
  have loop: "min_parent_time_loop s mc (double_round (time s 0 + 1)) mapped = Ok m s"
    unfolding m_def by (rule min_parent_time_loop_value [OF live dests par])
  have low: "tree_sequence_builder_make_pc_node s mapped = Stop (Err TSI_ERR_ASSERTION_FAILURE) s"
    if "double_round (m - 1 / 65536) \<le> time s (nat mc)"
    using that make_pc_node_unfold [OF mapped d0(1) _ loop [folded d0(2)]] mc d0 by simp
  have high: "nodes_of (state_of (tree_sequence_builder_make_pc_node s mapped))
      = nodes_of (snd (tree_sequence_builder_add_node s (double_round (m - 1 / 65536)) TSI_NODE_IS_PC_ANCESTOR))"
    if "time s (nat mc) < double_round (m - 1 / 65536)"
  proof -
    have "tree_sequence_builder_make_pc_node s mapped
        = (case tree_sequence_builder_add_node s (double_round (m - 1 / 65536)) TSI_NODE_IS_PC_ANCESTOR of
             (pc_node, s1) \<Rightarrow>
               (case pc_edges_loop s1 pc_node [] mapped of
                  Ok head s2 \<Rightarrow>
                    (case tree_sequence_builder_squash_edges
                            (s2\<lparr>path := (path s2)(nat pc_node := head)\<rparr>) pc_node of
                       Ok _ s3 \<Rightarrow>
                         (case tree_sequence_builder_squash_indexed_edges s3 (child d0) of
                            Ok _ s4 \<Rightarrow> tree_sequence_builder_index_edges s4 pc_node
                          | Stop e s4 \<Rightarrow> Stop e s4)
                     | Stop e s3 \<Rightarrow> Stop e s3)
                | Stop e s2 \<Rightarrow> Stop e s2))"
      using that make_pc_node_unfold [OF mapped d0(1) _ loop [folded d0(2)]] mc d0 by simp
    then show ?thesis
      by (simp add: nodes_of_pc_tail split: prod.splits)
  qed
  have after: "num_nodes (state_of (tree_sequence_builder_make_pc_node s mapped)) = num_nodes s + 1
      \<and> time (state_of (tree_sequence_builder_make_pc_node s mapped)) (num_nodes s) = double_round (m - 1 / 65536)
      \<and> node_flags (state_of (tree_sequence_builder_make_pc_node s mapped)) (num_nodes s)
          = TSI_NODE_IS_PC_ANCESTOR
      \<and> (\<forall>i < num_nodes s. time (state_of (tree_sequence_builder_make_pc_node s mapped)) i = time s i)"
    if "time s (nat mc) < double_round (m - 1 / 65536)"
    using high [OF that]
    by (simp add: nodes_of_def tree_sequence_builder_add_node_def)
  show ?thesis
    unfolding Let_def m_def [symmetric] using low after by blast
qed


text \<open>
  The theorem at two contigs of two edges: with parents at time 3 and child at time 1 the
  new node 4 has time \<open>3 - 1/65536\<close>; with parents at time \<open>1 + 1/65536\<close> the candidate
  collides with the child's time 1.
\<close>

text \<open>
  C1. The time of a new path-compression ancestor should be the minimum over the contig
  of the times of the parents of the source edges, minus \<open>1/65536\<close>. The running minimum
  of \<open>make_pc_node\<close> starts at \<open>time(node 0) + 1\<close>, which is below the times of the
  parents when node 0 is not the oldest node. Here node 0 has time 0 and the parents of
  the contig (nodes 1 and 2) have time 5: the call succeeds and the new node 5 gets time
  \<open>1 - 1/65536\<close>, not \<open>5 - 1/65536\<close>.
\<close>

theorem pc_node_time_not_contig_minimum:
  "stop_of (tree_sequence_builder_add_path low_root 4 [(2, 3, 2), (0, 2, 1)] TSI_COMPRESS_PATH) = None
   \<and> num_nodes low_root = 5
   \<and> num_nodes (state_of (tree_sequence_builder_add_path low_root 4 [(2, 3, 2), (0, 2, 1)]
        TSI_COMPRESS_PATH)) = 6
   \<and> path_edges (state_of (tree_sequence_builder_add_path low_root 4 [(2, 3, 2), (0, 2, 1)]
        TSI_COMPRESS_PATH)) 5
       = [\<lparr>left = 0, right = 2, parent = 1, child = 5\<rparr>,
          \<lparr>left = 2, right = 3, parent = 2, child = 5\<rparr>]
   \<and> time low_root 1 = 5 \<and> time low_root 2 = 5
   \<and> time (state_of (tree_sequence_builder_add_path low_root 4 [(2, 3, 2), (0, 2, 1)]
        TSI_COMPRESS_PATH)) 5 = 1 - 1 / 65536
   \<and> time (state_of (tree_sequence_builder_add_path low_root 4 [(2, 3, 2), (0, 2, 1)]
        TSI_COMPRESS_PATH)) 5 \<noteq> min (time low_root 1) (time low_root 2) - 1 / 65536"
  by (simp add: unindexed_path_def four_nodes_def close_times_def low_root_def model_defs)

subsection \<open>Inserting into the indexes\<close>

lemma cmp3_eq_0 [simp]: "cmp3 a b = 0 \<longleftrightarrow> a = b"
  by (auto simp: cmp3_def)

lemma cmp_left_eq_0:
  "cmp_edge_left_increasing_time a b = 0 \<longleftrightarrow> left a = left b \<and> etime a = etime b \<and> child a = child b"
  by (auto simp: cmp_edge_left_increasing_time_def Let_def)

lemma cmp_right_eq_0:
  "cmp_edge_right_decreasing_time a b = 0 \<longleftrightarrow> right a = right b \<and> etime a = etime b \<and> child a = child b"
  by (auto simp: cmp_edge_right_decreasing_time_def Let_def)

lemma cmp_path_eq_0:
  "cmp_edge_path a b = 0 \<longleftrightarrow> left a = left b \<and> right a = right b \<and> parent a = parent b \<and> child a = child b"
  by (auto simp: cmp_edge_path_def Let_def)

lemma avl_search_None:
  "avl_search cmp h t key = None \<longleftrightarrow>
     (\<forall>i \<in> set t. case h i of None \<Rightarrow> True | Some x \<Rightarrow> cmp key x \<noteq> 0)"
  by (auto simp: avl_search_def find_None_iff split: option.splits)

lemma avl_insert_node_Some:
  assumes "avl_search cmp h t key = None"
  shows "\<exists>t'. avl_insert_node cmp h t e key = Some t' \<and> set t' = insert e (set t)
              \<and> length t' = Suc (length t)"
proof -
  let ?P = "\<lambda>i. case h i of None \<Rightarrow> False | Some x \<Rightarrow> cmp x key < 0"
  have "set (takeWhile ?P t) \<union> set (dropWhile ?P t) = set t"
    by (metis set_append takeWhile_dropWhile_id)
  then have "set (takeWhile ?P t @ e # dropWhile ?P t) = insert e (set t)"
    by auto
  moreover have "length (takeWhile ?P t) + length (dropWhile ?P t) = length t"
    by (metis length_append takeWhile_dropWhile_id)
  then have "length (takeWhile ?P t @ e # dropWhile ?P t) = Suc (length t)"
    by simp
  ultimately show ?thesis
    using assms unfolding avl_insert_node_def by simp
qed

lemma items_live_iff: "items_live h t \<longleftrightarrow> (\<forall>i \<in> set t. h i \<noteq> None)"
  by (simp add: items_live_def list_all_iff)

text \<open>
  An edge can be indexed when every indexed edge is allocated and differs from it in the
  child, or in both the left and the right end.
\<close>

lemma index_edge_ok:
  assumes "edge_heap s e = Some key"
    and "\<forall>i \<in> indexed s. \<exists>x. edge_heap s i = Some x
           \<and> (child x \<noteq> child key \<or> (left x \<noteq> left key \<and> right x \<noteq> right key))"
  shows "\<exists>lt rt pt.
           tree_sequence_builder_index_edge s e
             = Ok () (s\<lparr>left_index := lt, right_index := rt, path_index := pt,
                        avl_node_heap_allocated := avl_node_heap_allocated s + 3\<rparr>)
           \<and> set lt = insert e (set (left_index s)) \<and> length lt = Suc (length (left_index s))
           \<and> set rt = insert e (set (right_index s)) \<and> length rt = Suc (length (right_index s))
           \<and> set pt = insert e (set (path_index s)) \<and> length pt = Suc (length (path_index s))"
proof -
  have live: "items_live (edge_heap s) (left_index s)" "items_live (edge_heap s) (right_index s)"
    "items_live (edge_heap s) (path_index s)"
    using assms(2) by (auto simp: items_live_iff indexed_def)
  have l: "avl_search cmp_edge_left_increasing_time (edge_heap s) (left_index s) key = None"
    unfolding avl_search_None
  proof
    fix i assume "i \<in> set (left_index s)"
    then have "i \<in> indexed s" by (simp add: indexed_def)
    with assms(2) obtain x where "edge_heap s i = Some x"
      "child x \<noteq> child key \<or> (left x \<noteq> left key \<and> right x \<noteq> right key)" by blast
    then show "case edge_heap s i of None \<Rightarrow> True | Some x \<Rightarrow> cmp_edge_left_increasing_time key x \<noteq> 0"
      by (auto simp: cmp_left_eq_0)
  qed
  have r: "avl_search cmp_edge_right_decreasing_time (edge_heap s) (right_index s) key = None"
    unfolding avl_search_None
  proof
    fix i assume "i \<in> set (right_index s)"
    then have "i \<in> indexed s" by (simp add: indexed_def)
    with assms(2) obtain x where "edge_heap s i = Some x"
      "child x \<noteq> child key \<or> (left x \<noteq> left key \<and> right x \<noteq> right key)" by blast
    then show "case edge_heap s i of None \<Rightarrow> True | Some x \<Rightarrow> cmp_edge_right_decreasing_time key x \<noteq> 0"
      by (auto simp: cmp_right_eq_0)
  qed
  have p: "avl_search cmp_edge_path (edge_heap s) (path_index s) key = None"
    unfolding avl_search_None
  proof
    fix i assume "i \<in> set (path_index s)"
    then have "i \<in> indexed s" by (simp add: indexed_def)
    with assms(2) obtain x where "edge_heap s i = Some x"
      "child x \<noteq> child key \<or> (left x \<noteq> left key \<and> right x \<noteq> right key)" by blast
    then show "case edge_heap s i of None \<Rightarrow> True | Some x \<Rightarrow> cmp_edge_path key x \<noteq> 0"
      by (auto simp: cmp_path_eq_0)
  qed
  from avl_insert_node_Some [OF l, of e] obtain lt where
    lt: "avl_insert_node cmp_edge_left_increasing_time (edge_heap s) (left_index s) e key = Some lt"
    "set lt = insert e (set (left_index s))" "length lt = Suc (length (left_index s))" by blast
  from avl_insert_node_Some [OF r, of e] obtain rt where
    rt: "avl_insert_node cmp_edge_right_decreasing_time (edge_heap s) (right_index s) e key = Some rt"
    "set rt = insert e (set (right_index s))" "length rt = Suc (length (right_index s))" by blast
  from avl_insert_node_Some [OF p, of e] obtain pt where
    pt: "avl_insert_node cmp_edge_path (edge_heap s) (path_index s) e key = Some pt"
    "set pt = insert e (set (path_index s))" "length pt = Suc (length (path_index s))" by blast
  have "tree_sequence_builder_index_edge s e
      = Ok () (s\<lparr>left_index := lt, right_index := rt, path_index := pt,
                 avl_node_heap_allocated := avl_node_heap_allocated s + 3\<rparr>)"
    using assms(1) live lt(1) rt(1) pt(1)
    by (simp add: tree_sequence_builder_index_edge_def)
  with lt rt pt show ?thesis by blast
qed

lemma index_edge_ok_indexed:
  assumes "edge_heap s e = Some key"
    and "\<forall>i \<in> indexed s. \<exists>x. edge_heap s i = Some x
           \<and> (child x \<noteq> child key \<or> (left x \<noteq> left key \<and> right x \<noteq> right key))"
  shows "\<exists>s'. tree_sequence_builder_index_edge s e = Ok () s'
           \<and> indexed s' = insert e (indexed s)
           \<and> edge_heap s' = edge_heap s \<and> path s' = path s \<and> nodes_of s' = nodes_of s
           \<and> edge_heap_next s' = edge_heap_next s
           \<and> length (left_index s') = Suc (length (left_index s))
           \<and> length (right_index s') = Suc (length (right_index s))"
proof -
  from index_edge_ok [OF assms] obtain lt rt pt where
    "tree_sequence_builder_index_edge s e
             = Ok () (s\<lparr>left_index := lt, right_index := rt, path_index := pt,
                        avl_node_heap_allocated := avl_node_heap_allocated s + 3\<rparr>)"
    "set lt = insert e (set (left_index s))" "length lt = Suc (length (left_index s))"
    "set rt = insert e (set (right_index s))" "length rt = Suc (length (right_index s))"
    "set pt = insert e (set (path_index s))" by blast
  then show ?thesis
    by (intro exI [of _ "s\<lparr>left_index := lt, right_index := rt, path_index := pt,
                        avl_node_heap_allocated := avl_node_heap_allocated s + 3\<rparr>"])
      (auto simp: indexed_def nodes_of_def)
qed

subsection \<open>C5: reusing an existing path-compression ancestor\<close>

lemma remap_loop_result:
  assumes "\<forall>(source, dest) \<in> set contig. edge_heap s source \<noteq> None"
  shows "remap_loop s mc contig
       = Ok () (s\<lparr>edge_heap := (\<lambda>i. if i \<in> fst ` set contig
                                      then map_option (\<lambda>e. e\<lparr>parent := mc\<rparr>) (edge_heap s i)
                                      else edge_heap s i)\<rparr>)"
  using assms
proof (induction contig arbitrary: s)
  case Nil
  show ?case by simp
next
  case (Cons a contig)
  obtain source dest where a: "a = (source, dest)" by (cases a)
  let ?s1 = "edge_update s source (\<lambda>e. e\<lparr>parent := mc\<rparr>)"
  obtain se where se: "edge_heap s source = Some se"
    using Cons.prems a by auto
  have live: "\<forall>(source, dest) \<in> set contig. edge_heap ?s1 source \<noteq> None"
    using Cons.prems by (auto simp: edge_update_def)
  have eq: "?s1\<lparr>edge_heap := (\<lambda>i. if i \<in> fst ` set contig
                                      then map_option (\<lambda>e. e\<lparr>parent := mc\<rparr>) (edge_heap ?s1 i)
                                      else edge_heap ?s1 i)\<rparr>
          = s\<lparr>edge_heap := (\<lambda>i. if i \<in> fst ` set (a # contig)
                                      then map_option (\<lambda>e. e\<lparr>parent := mc\<rparr>) (edge_heap s i)
                                      else edge_heap s i)\<rparr>"
    unfolding a by (auto simp: edge_update_def fun_eq_iff se option.map_comp o_def)
  show ?case
    using Cons.IH [OF live] eq unfolding a by (simp add: se)
qed

text \<open>
  C5. In path compression, for a contig of two or more matches whose shared existing
  child carries the flag \<open>IS_PC_ANCESTOR\<close>, no node is created and no index and no path
  changes: the state after the step differs from the state before only in the edge
  arena, and there only in the parent field of the matched edges of the new path, which
  becomes that existing child.
\<close>

theorem compress_contig_reuse:
  assumes "length contig > 1"
    and "edge_heap s (snd (hd contig)) = Some de"
    and "valid_node s (child de)"
    and "node_flags s (nat (child de)) AND TSI_NODE_IS_PC_ANCESTOR \<noteq> 0"
    and "\<forall>(source, dest) \<in> set contig. edge_heap s source \<noteq> None"
  shows "compress_contig s contig
       = Ok () (s\<lparr>edge_heap := (\<lambda>i. if i \<in> fst ` set contig
                                      then map_option (\<lambda>e. e\<lparr>parent := child de\<rparr>) (edge_heap s i)
                                      else edge_heap s i)\<rparr>)"
  using assms remap_loop_result [of contig s "child de"]
  by (simp add: compress_contig_def)

theorem compress_contig_reuse_witness:
  "stop_of (compress_contig (unindexed_path six_nodes 5 [(2, 3, 1), (0, 2, 0)]) [(6, 4), (7, 5)])
     = None
   \<and> num_nodes (state_of (compress_contig (unindexed_path six_nodes 5 [(2, 3, 1), (0, 2, 0)])
        [(6, 4), (7, 5)])) = 6
   \<and> edge_heap (state_of (compress_contig (unindexed_path six_nodes 5 [(2, 3, 1), (0, 2, 0)])
        [(6, 4), (7, 5)])) 6
       = Some \<lparr>left = 0, right = 2, parent = 4, child = 5, etime = 1\<rparr>
   \<and> edge_heap (state_of (compress_contig (unindexed_path six_nodes 5 [(2, 3, 1), (0, 2, 0)])
        [(6, 4), (7, 5)])) 7
       = Some \<lparr>left = 2, right = 3, parent = 4, child = 5, etime = 1\<rparr>
   \<and> edge_heap (state_of (compress_contig (unindexed_path six_nodes 5 [(2, 3, 1), (0, 2, 0)])
        [(6, 4), (7, 5)])) 4
       = Some \<lparr>left = 0, right = 2, parent = 0, child = 4, etime = 3 - 1 / 65536\<rparr>"
proof -
  let ?s = "unindexed_path six_nodes 5 [(2, 3, 1), (0, 2, 0)]"
  let ?de = "\<lparr>left = 0, right = 2, parent = 0, child = 4, etime = 3 - 1 / 65536\<rparr>"
  have h1: "length [(6::nat, 4::nat), (7, 5)] > 1" by simp
  have h2: "edge_heap ?s (snd (hd [(6::nat, 4::nat), (7, 5)])) = Some ?de"
    by (simp add: unindexed_path_def six_nodes_def pc_built_def four_nodes_def model_defs)
  have h3: "valid_node ?s (child ?de)"
    by (simp add: unindexed_path_def six_nodes_def pc_built_def four_nodes_def model_defs)
  have h4: "node_flags ?s (nat (child ?de)) AND TSI_NODE_IS_PC_ANCESTOR \<noteq> 0"
    by (simp add: unindexed_path_def six_nodes_def pc_built_def four_nodes_def model_defs)
  have h5: "\<forall>(source, dest) \<in> set [(6::nat, 4::nat), (7, 5)]. edge_heap ?s source \<noteq> None"
    by (simp add: unindexed_path_def six_nodes_def pc_built_def four_nodes_def model_defs)
  have v: "edge_heap ?s 6 = Some \<lparr>left = 0, right = 2, parent = 0, child = 5, etime = 1\<rparr>"
    "edge_heap ?s 7 = Some \<lparr>left = 2, right = 3, parent = 1, child = 5, etime = 1\<rparr>"
    "edge_heap ?s 4 = Some ?de" "num_nodes ?s = 6"
    by (simp_all add: unindexed_path_def six_nodes_def pc_built_def four_nodes_def model_defs)
  show ?thesis
    using compress_contig_reuse [OF h1 h2 h3 h4 h5] by (simp add: v)
qed

subsection \<open>C3: the validation of a path\<close>

lemma alloc_edge_ok:
  assumes "0 \<le> p" "p < int (num_nodes s)" "0 \<le> c" "c < int (num_nodes s)"
    "time s (nat c) < time s (nat p)"
  shows "tree_sequence_builder_alloc_edge s l r p c
       = Ok (edge_heap_next s)
           (s\<lparr>edge_heap := (edge_heap s)(edge_heap_next s \<mapsto>
                 \<lparr>left = l, right = r, parent = p, child = c, etime = time s (nat c)\<rparr>),
              edge_heap_next := edge_heap_next s + 1,
              edge_heap_allocated := edge_heap_allocated s + 1\<rparr>)"
  using assms by (simp add: tree_sequence_builder_alloc_edge_def)

lemma add_path_loop_check:
  assumes "0 \<le> c" "c < int (num_nodes s)"
    and "case prev of None \<Rightarrow> prev_right = None
         | Some pr \<Rightarrow> pr < edge_heap_next s \<and> prev_right \<noteq> None
                      \<and> map_option right (edge_heap s pr) = prev_right"
  shows "case first_failed_check (num_nodes s) (time s) (time s (nat c)) prev_right es of
           Some x \<Rightarrow> stop_of (add_path_loop s c (time s (nat c)) prev chain es) = Some x
         | None \<Rightarrow> returns_ok (add_path_loop s c (time s (nat c)) prev chain es)
                   \<and> nodes_of (state_of (add_path_loop s c (time s (nat c)) prev chain es))
                       = nodes_of s"
  using assms
proof (induction es arbitrary: s prev prev_right chain)
  case Nil
  show ?case by (simp add: returns_ok_def)
next
  case (Cons a es)
  obtain l r p where a: "a = (l, r, p)" by (cases a)
  show ?case
  proof (cases "p \<ge> int (num_nodes s) \<or> p < 0 \<or> time s (nat p) \<le> time s (nat c)")
    case True
    then show ?thesis unfolding a by auto
  next
    case False
    let ?e = "\<lparr>left = l, right = r, parent = p, child = c, etime = time s (nat c)\<rparr>"
    let ?s1 = "s\<lparr>edge_heap := (edge_heap s)(edge_heap_next s \<mapsto> ?e),
                 edge_heap_next := edge_heap_next s + 1,
                 edge_heap_allocated := edge_heap_allocated s + 1\<rparr>"
    have alloc: "tree_sequence_builder_alloc_edge s l r p c = Ok (edge_heap_next s) ?s1"
      using False Cons.prems(1,2) by (intro alloc_edge_ok) auto
    have nodes: "num_nodes ?s1 = num_nodes s" "time ?s1 = time s" "nodes_of ?s1 = nodes_of s"
      by (simp_all add: nodes_of_def)
    have next_prev: "case Some (edge_heap_next s) of None \<Rightarrow> Some r = None
         | Some pr \<Rightarrow> pr < edge_heap_next ?s1 \<and> Some r \<noteq> None
                      \<and> map_option right (edge_heap ?s1 pr) = Some r"
      by simp
    note IH = Cons.IH [where s = ?s1 and prev = "Some (edge_heap_next s)"
          and prev_right = "Some r", unfolded nodes, OF Cons.prems(1,2) next_prev]
    show ?thesis
    proof (cases prev)
      case None
      then have pr: "prev_right = None" using Cons.prems(3) by simp
      show ?thesis
        using False IH [where chain = "[edge_heap_next s]"]
        unfolding a by (simp add: alloc None pr nodes split: option.splits)
    next
      case (Some pr)
      then obtain pe where pe: "edge_heap s pr = Some pe" "prev_right = Some (right pe)"
        "pr < edge_heap_next s"
        using Cons.prems(3) by (cases "edge_heap s pr") auto
      have neq: "pr \<noteq> edge_heap_next s" using pe(3) by simp
      show ?thesis
        using False IH [where chain = "chain @ [edge_heap_next s]"]
        unfolding a by (simp add: alloc Some pe nodes neq split: option.splits)
    qed
  qed
qed

lemma first_failed_check_not_unsorted:
  "first_failed_check n tm ct pr es \<noteq> Some (Err TSI_ERR_UNSORTED_EDGES)"
  by (induction n tm ct pr es rule: first_failed_check.induct) auto

lemma add_path_after_loop:
  assumes "add_path_loop s c (time s (nat c)) None [] (rev entries) = Ok head s1"
    and "0 \<le> c" "c < int (num_nodes s)"
    and "tree_sequence_builder_add_path s c entries flags = Stop x s'"
  shows "\<not> validation_code x"
proof -
  have "quiet x \<or> x = Assert Squash_head \<or> x = Assert Check_state"
    using assms
    by (auto simp: tree_sequence_builder_add_path_def
        split: if_splits res.splits
        dest: stops_compress_path quiet_index_edges)
  then show ?thesis
    by (cases x) (auto simp: validation_code_def)
qed

text \<open>
  C3 (as amended). For an \<open>add_path\<close> call with \<open>0 \<le> child < num_nodes\<close> the entries are
  checked one after the other in processing order (from the last array position to the
  first), each for \<open>parent < num_nodes\<close>, then for \<open>time(parent) > time(child)\<close>, then for
  \<open>prev.right = left\<close> against the entry processed before it. The call stops at the first
  check that fails, with \<open>BAD_PATH_PARENT\<close>, \<open>BAD_PATH_TIME\<close> or \<open>NONCONTIGUOUS_EDGES\<close>
  respectively (a negative parent is an out-of-range read). When no check fails, the call
  produces none of the validation codes, and it never produces \<open>UNSORTED_EDGES\<close>.
\<close>

theorem add_path_validation:
  assumes "0 \<le> c" "c < int (num_nodes s)"
  shows "(case first_failed_check (num_nodes s) (time s) (time s (nat c)) None (rev entries) of
            Some x \<Rightarrow> stop_of (tree_sequence_builder_add_path s c entries flags) = Some x
          | None \<Rightarrow>
              (case stop_of (tree_sequence_builder_add_path s c entries flags) of
                 None \<Rightarrow> True
               | Some x \<Rightarrow> \<not> validation_code x))
         \<and> stop_of (tree_sequence_builder_add_path s c entries flags)
             \<noteq> Some (Err TSI_ERR_UNSORTED_EDGES)"
proof -
  let ?chk = "first_failed_check (num_nodes s) (time s) (time s (nat c)) None (rev entries)"
  let ?loop = "add_path_loop s c (time s (nat c)) None [] (rev entries)"
  let ?r = "tree_sequence_builder_add_path s c entries flags"
  have loop: "case ?chk of
           Some x \<Rightarrow> stop_of ?loop = Some x
         | None \<Rightarrow> returns_ok ?loop \<and> nodes_of (state_of ?loop) = nodes_of s"
    using add_path_loop_check [where c = c and s = s and prev = None and prev_right = None
        and es = "rev entries" and chain = "[]"] assms by simp
  have first: "case ?chk of
            Some x \<Rightarrow> stop_of ?r = Some x
          | None \<Rightarrow> (case stop_of ?r of None \<Rightarrow> True | Some x \<Rightarrow> \<not> validation_code x)"
  proof (cases ?chk)
    case (Some x)
    with loop have "stop_of ?loop = Some x" by simp
    then obtain s1 where "?loop = Stop x s1"
      by (cases ?loop) auto
    with assms Some show ?thesis
      by (simp add: tree_sequence_builder_add_path_def)
  next
    case None
    with loop have "returns_ok ?loop" by simp
    then obtain head s1 where ok: "?loop = Ok head s1"
      by (cases ?loop) (auto simp: returns_ok_def)
    show ?thesis
    proof (cases ?r)
      case (Ok u s')
      with None show ?thesis by simp
    next
      case (Stop x s')
      from add_path_after_loop [OF ok assms Stop] None Stop show ?thesis by simp
    qed
  qed
  have "stop_of ?r \<noteq> Some (Err TSI_ERR_UNSORTED_EDGES)"
  proof (cases ?chk)
    case (Some x)
    with first first_failed_check_not_unsorted [of "num_nodes s" "time s" "time s (nat c)" None "rev entries"]
    show ?thesis by auto
  next
    case None
    with first show ?thesis
      by (auto simp: validation_code_def split: option.splits)
  qed
  with first show ?thesis by blast
qed

theorem add_path_validation_witness:
  "stop_of (tree_sequence_builder_add_path two_nodes 1 [(2, 3, 0), (0, 1, 0)] 0)
     = Some (Err TSI_ERR_NONCONTIGUOUS_EDGES)
   \<and> stop_of (tree_sequence_builder_add_path two_nodes 1 [(1, 3, 0), (0, 1, 2)] 0)
     = Some (Err TSI_ERR_BAD_PATH_PARENT)
   \<and> stop_of (tree_sequence_builder_add_path two_nodes 1 [(1, 3, 0), (0, 1, 1)] 0)
     = Some (Err TSI_ERR_BAD_PATH_TIME)
   \<and> stop_of (tree_sequence_builder_add_path two_nodes 1 [(1, 3, 0), (0, 1, 0)] 0)
     \<noteq> Some (Err TSI_ERR_UNSORTED_EDGES)"
proof -
  have c: "(0::int) \<le> 1" "(1::int) < int (num_nodes two_nodes)"
    by (simp_all add: two_nodes_def model_defs)
  have n: "num_nodes two_nodes = 2" "time two_nodes 0 = 2" "time two_nodes (Suc 0) = 1"
    by (simp_all add: two_nodes_def model_defs)
  show ?thesis
    using add_path_validation [OF c, of "[(2, 3, 0), (0, 1, 0)]" 0]
      add_path_validation [OF c, of "[(1, 3, 0), (0, 1, 2)]" 0]
      add_path_validation [OF c, of "[(1, 3, 0), (0, 1, 1)]" 0]
      add_path_validation [OF c, of "[(1, 3, 0), (0, 1, 0)]" 0]
    by (simp add: n)
qed

text \<open>
  C3 as stated fails: in this call the entry at position 0 has a parent that is not a
  node, yet the call returns \<open>BAD_PATH_TIME\<close>, because the entry at position 1 is
  checked first and its parent is not older than the child.
\<close>

theorem add_path_bad_parent_reported_as_time:
  "snd (snd ([(0, 1, 5), (1, 3, 1)] ! 0)) \<ge> int (num_nodes two_nodes)
   \<and> stop_of (tree_sequence_builder_add_path two_nodes 1 [(0, 1, 5), (1, 3, 1)] 0)
       = Some (Err TSI_ERR_BAD_PATH_TIME)"
  by (simp add: two_nodes_def model_defs)

subsection \<open>C10: path compression of an empty path\<close>

lemma add_path_loop_chain_ok:
  assumes "add_path_loop s c ct None [] es = Ok head s1" "es \<noteq> []" "0 \<le> c" "c < int (num_nodes s)"
  shows "chain_ok (s1\<lparr>path := (path s1)(nat c := head)\<rparr>) (nat c)"
proof -
  from add_path_loop_result [OF assms(1)] have
    h: "head = [edge_heap_next s ..< edge_heap_next s + length es]" and
    n: "num_nodes s1 = num_nodes s"
    by (simp_all del: upt_Suc)
  have "head \<noteq> []" using h assms(2) by (simp del: upt_Suc)
  moreover have "distinct head" using h by (simp del: upt_Suc)
  ultimately show ?thesis
    using assms(3,4) n by (simp add: chain_ok_def)
qed

lemma add_path_no_entries:
  assumes "0 \<le> c" "c < int (num_nodes s)" "flags AND TSI_COMPRESS_PATH \<noteq> 0"
  shows "tree_sequence_builder_add_path s c [] flags
           = Stop (Assert Squash_head) (s\<lparr>path := (path s)(nat c := [])\<rparr>)"
  using assms
  by (simp add: tree_sequence_builder_add_path_def tree_sequence_builder_compress_path_def
      tree_sequence_builder_squash_edges_def)

text \<open>
  C10. With \<open>COMPRESS_PATH\<close>, \<open>add_path\<close> needs a non-empty list of edges: the squash at
  the end of path compression asserts that the head of the child's path is not NULL.
  With no entries the call stops in that assertion, and with one entry or more no
  outcome of the call is that assertion.
\<close>

theorem compress_path_needs_edges:
  assumes "0 \<le> c" "c < int (num_nodes s)" "flags AND TSI_COMPRESS_PATH \<noteq> 0"
  shows "tree_sequence_builder_add_path s c [] flags
           = Stop (Assert Squash_head) (s\<lparr>path := (path s)(nat c := [])\<rparr>)
         \<and> (entries \<noteq> [] \<longrightarrow>
              stop_of (tree_sequence_builder_add_path s c entries flags)
                \<noteq> Some (Assert Squash_head))"
proof
  show "tree_sequence_builder_add_path s c [] flags
           = Stop (Assert Squash_head) (s\<lparr>path := (path s)(nat c := [])\<rparr>)"
    by (rule add_path_no_entries [OF assms])
next
  show "entries \<noteq> [] \<longrightarrow>
          stop_of (tree_sequence_builder_add_path s c entries flags) \<noteq> Some (Assert Squash_head)"
  proof
    assume ne: "entries \<noteq> []"
    let ?loop = "add_path_loop s c (time s (nat c)) None [] (rev entries)"
    show "stop_of (tree_sequence_builder_add_path s c entries flags) \<noteq> Some (Assert Squash_head)"
    proof (cases ?loop)
      case (Stop x s1)
      from add_path_loop_stops [OF Stop] have "x \<noteq> Assert Squash_head"
        by (auto simp: validation_code_def)
      with Stop assms show ?thesis
        by (simp add: tree_sequence_builder_add_path_def)
    next
      case (Ok head s1)
      let ?s2 = "s1\<lparr>path := (path s1)(nat c := head)\<rparr>"
      have ok: "chain_ok ?s2 (nat c)"
        using add_path_loop_chain_ok [OF Ok _ assms(1,2)] ne by simp
      have "x \<noteq> Assert Squash_head"
        if "tree_sequence_builder_add_path s c entries flags = Stop x s'" for x s'
      proof -
        have "quiet x \<or> x = Assert Check_state"
          using that Ok assms quiet_compress_path [OF ok]
          by (auto simp: tree_sequence_builder_add_path_def
              split: if_splits res.splits dest: quiet_index_edges)
        then show ?thesis by auto
      qed
      then show ?thesis
        by (cases "tree_sequence_builder_add_path s c entries flags") auto
    qed
  qed
qed

theorem compress_path_needs_edges_witness:
  "stop_of (tree_sequence_builder_add_path two_nodes 1 [] TSI_COMPRESS_PATH)
     = Some (Assert Squash_head)
   \<and> stop_of (tree_sequence_builder_add_path two_nodes 1 [(0, 3, 0)] TSI_COMPRESS_PATH)
     \<noteq> Some (Assert Squash_head)"
proof -
  have c: "(0::int) \<le> 1" "(1::int) < int (num_nodes two_nodes)"
    "TSI_COMPRESS_PATH AND TSI_COMPRESS_PATH \<noteq> 0"
    by (simp_all add: two_nodes_def model_defs)
  show ?thesis
    using compress_path_needs_edges [OF c, of "[(0, 3, 0)]"] by simp
qed

subsection \<open>C7: squashed paths\<close>

lemma path_edges_chain_edges: "path_edges s c = chain_edges (edge_heap s) (path s c)"
  by (simp add: path_edges_def chain_edges_def)

lemma chain_edges_Cons:
  "chain_edges h (e # es) = (case h e of None \<Rightarrow> chain_edges h es
                             | Some x \<Rightarrow> edge_payload x # chain_edges h es)"
  by (simp add: chain_edges_def List.map_filter_simps split: option.splits)

lemma chain_edges_Nil [simp]: "chain_edges h [] = []"
  by (simp add: chain_edges_def List.map_filter_simps)

lemma edge_heap_index_edge [simp]:
  "edge_heap (state_of (tree_sequence_builder_index_edge s e)) = edge_heap s"
  by (simp add: tree_sequence_builder_index_edge_def split: option.splits)

lemma edge_heap_index_chain [simp]: "edge_heap (state_of (index_chain s es)) = edge_heap s"
  by (induction es arbitrary: s) (simp_all add: seq_pres [where P = edge_heap])

lemma edge_heap_index_edges [simp]:
  "edge_heap (state_of (tree_sequence_builder_index_edges s node)) = edge_heap s"
  by (simp add: tree_sequence_builder_index_edges_def)






subsection \<open>C4: a path added without compression\<close>

lemma index_chain_ok:
  assumes "\<forall>i \<in> set es. \<exists>e. edge_heap s i = Some e \<and> child e = c"
    and "\<forall>i \<in> indexed s. \<exists>x. edge_heap s i = Some x
           \<and> (child x \<noteq> c
               \<or> (\<forall>j \<in> set es. \<forall>ej. edge_heap s j = Some ej \<longrightarrow>
                     left x < left ej \<and> right x < right ej))"
    and "sorted_wrt (\<lambda>i j. \<forall>ei ej. edge_heap s i = Some ei \<longrightarrow> edge_heap s j = Some ej \<longrightarrow>
                        left ei < left ej \<and> right ei < right ej) es"
  shows "\<exists>s'. index_chain s es = Ok () s' \<and> edge_heap s' = edge_heap s \<and> path s' = path s"
  using assms
proof (induction es arbitrary: s)
  case Nil
  show ?case by simp
next
  case (Cons e es)
  from Cons.prems(1) obtain key where key: "edge_heap s e = Some key" "child key = c" by auto
  have pre: "\<forall>i \<in> indexed s. \<exists>x. edge_heap s i = Some x
           \<and> (child x \<noteq> child key \<or> (left x \<noteq> left key \<and> right x \<noteq> right key))"
  proof
    fix i assume "i \<in> indexed s"
    with Cons.prems(2) obtain x where x: "edge_heap s i = Some x"
      "child x \<noteq> c \<or> (\<forall>j \<in> set (e # es). \<forall>ej. edge_heap s j = Some ej \<longrightarrow>
                     left x < left ej \<and> right x < right ej)" by blast
    then have "child x \<noteq> child key \<or> (left x \<noteq> left key \<and> right x \<noteq> right key)"
      using key by auto
    with x(1) show "\<exists>x. edge_heap s i = Some x
           \<and> (child x \<noteq> child key \<or> (left x \<noteq> left key \<and> right x \<noteq> right key))" by blast
  qed
  from index_edge_ok_indexed [OF key(1) pre] obtain s1 where
    s1: "tree_sequence_builder_index_edge s e = Ok () s1" "indexed s1 = insert e (indexed s)"
    "edge_heap s1 = edge_heap s" "path s1 = path s" by blast
  have a1: "\<forall>i \<in> set es. \<exists>e. edge_heap s1 i = Some e \<and> child e = c"
    using Cons.prems(1) s1(3) by simp
  have a2: "\<forall>i \<in> indexed s1. \<exists>x. edge_heap s1 i = Some x
           \<and> (child x \<noteq> c
               \<or> (\<forall>j \<in> set es. \<forall>ej. edge_heap s1 j = Some ej \<longrightarrow>
                     left x < left ej \<and> right x < right ej))"
  proof
    fix i assume "i \<in> indexed s1"
    then consider "i = e" | "i \<in> indexed s" using s1(2) by auto
    then show "\<exists>x. edge_heap s1 i = Some x
           \<and> (child x \<noteq> c
               \<or> (\<forall>j \<in> set es. \<forall>ej. edge_heap s1 j = Some ej \<longrightarrow>
                     left x < left ej \<and> right x < right ej))"
    proof cases
      case 1
      then show ?thesis using Cons.prems(3) key s1(3) by auto
    next
      case 2
      with Cons.prems(2) obtain x where "edge_heap s i = Some x"
        "child x \<noteq> c \<or> (\<forall>j \<in> set (e # es). \<forall>ej. edge_heap s j = Some ej \<longrightarrow>
                     left x < left ej \<and> right x < right ej)" by blast
      then show ?thesis using s1(3) by auto
    qed
  qed
  have a3: "sorted_wrt (\<lambda>i j. \<forall>ei ej. edge_heap s1 i = Some ei \<longrightarrow> edge_heap s1 j = Some ej \<longrightarrow>
                        left ei < left ej \<and> right ei < right ej) es"
    using Cons.prems(3) s1(3) by simp
  from Cons.IH [OF a1 a2 a3] s1 show ?case by auto
qed

lemma checked_entries_increasing:
  assumes "first_failed_check n tm ct pr es = None" "\<forall>(l, r, p) \<in> set es. l < r"
  shows "sorted_wrt (\<lambda>a b. fst a < fst b \<and> fst (snd a) < fst (snd b)) es
       \<and> (\<forall>x. pr = Some x \<longrightarrow> (\<forall>(l, r, p) \<in> set es. x \<le> l))"
  using assms
proof (induction es arbitrary: pr)
  case Nil
  show ?case by simp
next
  case (Cons a es)
  obtain l r p where a: "a = (l, r, p)" by (cases a)
  from Cons.prems(1) have rec: "first_failed_check n tm ct (Some r) es = None"
    and pr: "pr = None \<or> pr = Some l"
    unfolding a by (auto split: if_splits option.splits)
  have lr: "l < r" using Cons.prems(2) a by simp
  from Cons.IH [OF rec] Cons.prems(2) have
    IH: "sorted_wrt (\<lambda>a b. fst a < fst b \<and> fst (snd a) < fst (snd b)) es"
    "\<forall>(l', r', p') \<in> set es. r \<le> l'" by auto
  have "\<forall>b \<in> set es. l < fst b \<and> r < fst (snd b)"
    using IH(2) Cons.prems(2) lr by fastforce
  moreover have "\<forall>x. pr = Some x \<longrightarrow> (\<forall>(l', r', p') \<in> set (a # es). x \<le> l')"
    using pr IH(2) lr unfolding a by fastforce
  ultimately show ?case using IH(1) unfolding a by auto
qed

lemma chain_edges_all_live:
  "\<forall>j \<in> set xs. h j = Some (k j) \<Longrightarrow> chain_edges h xs = map (\<lambda>j. edge_payload (k j)) xs"
  by (induction xs) (simp_all add: chain_edges_Cons)

lemma chain_edges_fresh:
  "chain_edges (\<lambda>j. if n \<le> j \<and> j < n + length es then Some (f (es ! (j - n))) else g j)
     [n ..< n + length es] = map (\<lambda>e. edge_payload (f e)) es"
proof -
  let ?h = "\<lambda>j. if n \<le> j \<and> j < n + length es then Some (f (es ! (j - n))) else g j"
  have "\<forall>j \<in> set [n ..< n + length es]. ?h j = Some (f (es ! (j - n)))"
    by (simp del: upt_Suc)
  then have "chain_edges ?h [n ..< n + length es]
     = map (\<lambda>j. edge_payload (f (es ! (j - n)))) [n ..< n + length es]"
    by (rule chain_edges_all_live)
  also have "\<dots> = map (\<lambda>i. edge_payload (f (es ! i))) [0 ..< length es]"
  proof -
    have "[n ..< n + length es] = map (\<lambda>i. i + n) [0 ..< length es]"
      by (simp only: map_add_upt add.commute)
    then show ?thesis by (simp only: map_map o_def add_diff_cancel_right')
  qed
  also have "\<dots> = map (\<lambda>e. edge_payload (f e)) (map ((!) es) [0 ..< length es])"
    by (simp only: map_map o_def)
  also have "\<dots> = map (\<lambda>e. edge_payload (f e)) es"
    by (simp only: map_nth)
  finally show ?thesis .
qed

lemma edge_payload_entry_edge:
  "edge_payload (entry_edge c t e) = (case e of (l, r, p) \<Rightarrow> \<lparr>left = l, right = r, parent = p, child = c\<rparr>)"
  by (simp add: edge_payload_def entry_edge_def split: prod.splits)

lemma no_edges_of_iff:
  "no_edges_of s c \<longleftrightarrow>
     (\<forall>i \<in> indexed s. i < edge_heap_next s \<and> (\<exists>x. edge_heap s i = Some x \<and> child x \<noteq> c))"
  unfolding no_edges_of_def indexed_def list_all_iff set_append
  by (intro ball_cong refl) (auto split: option.splits)

lemma add_path_plain_exact:
  assumes "tree_sequence_builder_add_path s c entries flags = Ok u s'"
    and "flags AND TSI_COMPRESS_PATH = 0"
  shows "path_edges s' (nat c)
       = map (\<lambda>(l, r, p). \<lparr>left = l, right = r, parent = p, child = c\<rparr>) (rev entries)"
proof -
  let ?n = "edge_heap_next s"
  let ?es = "rev entries"
  from assms obtain head s1 where
    loop: "add_path_loop s c (time s (nat c)) None [] ?es = Ok head s1" and
    ix: "tree_sequence_builder_index_edges (s1\<lparr>path := (path s1)(nat c := head)\<rparr>) c = Ok () s'"
    by (auto simp: tree_sequence_builder_add_path_def split: if_splits res.splits)
  from add_path_loop_result [OF loop] have
    head: "head = [?n ..< ?n + length ?es]" and
    heap: "edge_heap s1 = (\<lambda>j. if ?n \<le> j \<and> j < ?n + length ?es
                       then Some (entry_edge c (time s (nat c)) (?es ! (j - ?n)))
                       else edge_heap s j)"
    by (simp_all del: upt_Suc)
  have "path s' = path (s1\<lparr>path := (path s1)(nat c := head)\<rparr>)"
    "edge_heap s' = edge_heap (s1\<lparr>path := (path s1)(nat c := head)\<rparr>)"
    using path_index_edges [of "s1\<lparr>path := (path s1)(nat c := head)\<rparr>" c]
      edge_heap_index_edges [of "s1\<lparr>path := (path s1)(nat c := head)\<rparr>" c] ix by simp_all
  then have "path_edges s' (nat c) = chain_edges (edge_heap s1) head"
    by (simp add: path_edges_chain_edges)
  also have "\<dots> = map (\<lambda>e. edge_payload (entry_edge c (time s (nat c)) e)) ?es"
    unfolding head heap by (rule chain_edges_fresh)
  finally show ?thesis
    by (simp add: edge_payload_entry_edge)
qed

lemma add_path_plain_succeeds:
  assumes c: "0 \<le> c" "c < int (num_nodes s)"
    and chk: "first_failed_check (num_nodes s) (time s) (time s (nat c)) None (rev entries) = None"
    and lr: "\<forall>(l, r, p) \<in> set entries. l < r"
    and old: "no_edges_of s c"
    and fl: "flags AND TSI_COMPRESS_PATH = 0" "flags AND TSI_EXTENDED_CHECKS = 0"
  shows "returns_ok (tree_sequence_builder_add_path s c entries flags)"
proof -
  let ?n = "edge_heap_next s"
  let ?es = "rev entries"
  let ?t = "time s (nat c)"
  have "returns_ok (add_path_loop s c ?t None [] ?es)"
    using add_path_loop_check [where c = c and s = s and prev = None and prev_right = None
        and es = ?es and chain = "[]"] c chk by simp
  then obtain head s1 where loop: "add_path_loop s c ?t None [] ?es = Ok head s1"
    by (cases "add_path_loop s c ?t None [] ?es") (auto simp: returns_ok_def)
  let ?s2 = "s1\<lparr>path := (path s1)(nat c := head)\<rparr>"
  from add_path_loop_result [OF loop] have
    head: "head = [?n ..< ?n + length ?es]" and
    s1: "s1 = s\<lparr>edge_heap := (\<lambda>j. if ?n \<le> j \<and> j < ?n + length ?es
                       then Some (entry_edge c ?t (?es ! (j - ?n)))
                       else edge_heap s j),
                edge_heap_next := ?n + length ?es,
                edge_heap_allocated := edge_heap_allocated s + length ?es\<rparr>"
    by (simp_all del: upt_Suc)
  have heap_new: "edge_heap ?s2 (?n + i) = Some (entry_edge c ?t (?es ! i))" if "i < length ?es" for i
    using that by (subst s1) simp
  have heap_old: "edge_heap ?s2 i = edge_heap s i" if "i < ?n" for i
    using that by (subst s1) simp
  have ind: "indexed ?s2 = indexed s"
    by (subst s1) (simp add: indexed_def)
  have a1: "\<forall>i \<in> set head. \<exists>e. edge_heap ?s2 i = Some e \<and> child e = c"
  proof
    fix i assume "i \<in> set head"
    then obtain k where k: "i = ?n + k" "k < length ?es"
      unfolding head by (auto simp del: upt_Suc intro: that [of "i - ?n"])
    show "\<exists>e. edge_heap ?s2 i = Some e \<and> child e = c"
      unfolding k(1) using heap_new [OF k(2)]
      by (auto simp: entry_edge_def split: prod.splits)
  qed
  have a2: "\<forall>i \<in> indexed ?s2. \<exists>x. edge_heap ?s2 i = Some x
           \<and> (child x \<noteq> c
               \<or> (\<forall>j \<in> set head. \<forall>ej. edge_heap ?s2 j = Some ej \<longrightarrow>
                     left x < left ej \<and> right x < right ej))"
  proof
    fix i assume "i \<in> indexed ?s2"
    then have "i \<in> indexed s" using ind by simp
    with old obtain x where "i < ?n" "edge_heap s i = Some x" "child x \<noteq> c"
      unfolding no_edges_of_iff by blast
    then show "\<exists>x. edge_heap ?s2 i = Some x
           \<and> (child x \<noteq> c
               \<or> (\<forall>j \<in> set head. \<forall>ej. edge_heap ?s2 j = Some ej \<longrightarrow>
                     left x < left ej \<and> right x < right ej))"
      using heap_old [of i] by auto
  qed
  have inc: "sorted_wrt (\<lambda>a b. fst a < fst b \<and> fst (snd a) < fst (snd b)) ?es"
    using checked_entries_increasing [OF chk] lr by simp
  have a3: "sorted_wrt (\<lambda>i j. \<forall>ei ej. edge_heap ?s2 i = Some ei \<longrightarrow> edge_heap ?s2 j = Some ej \<longrightarrow>
                        left ei < left ej \<and> right ei < right ej) head"
    unfolding sorted_wrt_iff_nth_less
  proof (intro allI impI)
    fix i j ei ej
    assume ij: "i < j" "j < length head"
      and e: "edge_heap ?s2 (head ! i) = Some ei" "edge_heap ?s2 (head ! j) = Some ej"
    have len: "i < length ?es" "j < length ?es" using ij head by (simp_all del: upt_Suc)
    have "head ! i = ?n + i" "head ! j = ?n + j"
      using len unfolding head by (simp_all del: upt_Suc)
    with e heap_new [OF len(1)] heap_new [OF len(2)] have
      "ei = entry_edge c ?t (?es ! i)" "ej = entry_edge c ?t (?es ! j)" by simp_all
    moreover have "fst (?es ! i) < fst (?es ! j) \<and> fst (snd (?es ! i)) < fst (snd (?es ! j))"
      using inc ij(1) len(2) unfolding sorted_wrt_iff_nth_less by blast
    ultimately show "left ei < left ej \<and> right ei < right ej"
      by (simp add: entry_edge_def split: prod.splits)
  qed
  from index_chain_ok [OF a1 a2 a3] obtain s3 where "index_chain ?s2 head = Ok () s3" by blast
  then have "tree_sequence_builder_index_edges ?s2 c = Ok () s3"
    using c by (simp add: tree_sequence_builder_index_edges_def)
  then show ?thesis
    using c loop fl
    by (simp add: tree_sequence_builder_add_path_def returns_ok_def)
qed

text \<open>
  C4. Without \<open>COMPRESS_PATH\<close>, \<open>add_path\<close> stores the entries as they are: after a
  successful call the path of the child is the list of the given triples with the child
  field set, in left-to-right order (the reverse of the order of delivery), with no two
  of them merged. The call does succeed when the entries pass the checks of \<open>add_path\<close>
  and have \<open>left < right\<close>, no indexed edge belongs to the child yet, and
  \<open>EXTENDED_CHECKS\<close> is off.
\<close>

theorem add_path_plain_stores_entries:
  assumes "flags AND TSI_COMPRESS_PATH = 0"
  shows "(\<forall>u s'. tree_sequence_builder_add_path s c entries flags = Ok u s' \<longrightarrow>
            path_edges s' (nat c)
              = map (\<lambda>(l, r, p). \<lparr>left = l, right = r, parent = p, child = c\<rparr>) (rev entries))
       \<and> (0 \<le> c \<and> c < int (num_nodes s)
           \<and> first_failed_check (num_nodes s) (time s) (time s (nat c)) None (rev entries) = None
           \<and> (\<forall>(l, r, p) \<in> set entries. l < r)
           \<and> no_edges_of s c \<and> flags AND TSI_EXTENDED_CHECKS = 0
          \<longrightarrow> returns_ok (tree_sequence_builder_add_path s c entries flags))"
  using assms add_path_plain_exact [of s c entries flags]
    add_path_plain_succeeds [of c s entries flags]
  by blast

theorem add_path_plain_stores_entries_witness:
  "returns_ok (tree_sequence_builder_add_path two_nodes 1 [(1, 3, 0), (0, 1, 0)] 0)
   \<and> path_edges (state_of (tree_sequence_builder_add_path two_nodes 1 [(1, 3, 0), (0, 1, 0)] 0))
        (nat 1)
       = [\<lparr>left = 0, right = 1, parent = 0, child = 1\<rparr>,
          \<lparr>left = 1, right = 3, parent = 0, child = 1\<rparr>]"
proof -
  have f: "(0 :: 32 word) AND TSI_COMPRESS_PATH = 0" by simp
  have h: "(0::int) \<le> 1 \<and> (1::int) < int (num_nodes two_nodes)
           \<and> first_failed_check (num_nodes two_nodes) (time two_nodes) (time two_nodes (nat 1))
                None (rev [(1, 3, 0), (0, 1, 0)]) = None
           \<and> (\<forall>(l, r, p) \<in> set [(1 :: int, 3 :: int, 0 :: int), (0, 1, 0)]. l < r)
           \<and> no_edges_of two_nodes 1 \<and> (0 :: 32 word) AND TSI_EXTENDED_CHECKS = 0"
    by (simp add: two_nodes_def no_edges_of_def model_defs)
  from add_path_plain_stores_entries [OF f, of two_nodes 1 "[(1, 3, 0), (0, 1, 0)]"] h
  have ok: "returns_ok (tree_sequence_builder_add_path two_nodes 1 [(1, 3, 0), (0, 1, 0)] 0)"
    and ex: "\<And>u s'. tree_sequence_builder_add_path two_nodes 1 [(1, 3, 0), (0, 1, 0)] 0 = Ok u s'
        \<Longrightarrow> path_edges s' (nat 1)
          = map (\<lambda>(l, r, p). \<lparr>left = l, right = r, parent = p, child = 1\<rparr>)
              (rev [(1, 3, 0), (0, 1, 0)])"
    by blast+
  from ok obtain u s' where
    r: "tree_sequence_builder_add_path two_nodes 1 [(1, 3, 0), (0, 1, 0)] 0 = Ok u s'"
    by (cases "tree_sequence_builder_add_path two_nodes 1 [(1, 3, 0), (0, 1, 0)] 0")
      (auto simp: returns_ok_def)
  from ex [OF r] r ok show ?thesis by simp
qed

subsection \<open>C9 and C6: what the loop of restore\_edges accepts\<close>

lemma alloc_edge_result:
  assumes "tree_sequence_builder_alloc_edge s l r p c = Ok e s1"
  shows "e = edge_heap_next s
       \<and> edge_heap s1 = (edge_heap s)(edge_heap_next s \<mapsto>
             \<lparr>left = l, right = r, parent = p, child = c, etime = time s (nat c)\<rparr>)
       \<and> edge_heap_next s1 = edge_heap_next s + 1 \<and> indexes_of s1 = indexes_of s
       \<and> path s1 = path s \<and> nodes_of s1 = nodes_of s"
  using assms
  by (auto simp: tree_sequence_builder_alloc_edge_def indexes_of_def nodes_of_def
      split: if_splits)

lemma index_edge_frame:
  assumes "tree_sequence_builder_index_edge s e = Ok u s'"
  shows "edge_heap s' = edge_heap s \<and> path s' = path s \<and> edge_heap_next s' = edge_heap_next s"
  using assms
  by (auto simp: tree_sequence_builder_index_edge_def split: option.splits if_splits)

text \<open>One round of the loop that does not stop in an assertion or a fault.\<close>

lemma restore_row:
  assumes R: "restore_edges_loop s prev pc ((l, r, p, c) # rest) = R"
    and kind: "R = Ok u s' \<or> R = Stop (Err TSI_ERR_UNSORTED_EDGES) s'"
    and inv: "restore_prev s prev pc prow"
  shows "(R = Stop (Err TSI_ERR_UNSORTED_EDGES) s'
            \<and> (\<exists>a. prow = Some a \<and> rows_clash a (l, r, p, c)
                  \<and> (paths_below s pc \<longrightarrow> \<not> rows_follow a (l, r, p, c))))
       \<or> (\<exists>s3. restore_edges_loop s3 (Some (edge_heap_next s)) (Some c) rest = R
              \<and> restore_prev s3 (Some (edge_heap_next s)) (Some c) (Some (l, r, p, c))
              \<and> (\<forall>a. prow = Some a \<longrightarrow> rows_follow a (l, r, p, c))
              \<and> (paths_below s pc \<longrightarrow> paths_below s3 (Some c)))"
proof (cases "case pc of None \<Rightarrow> False | Some c' \<Rightarrow> c' > c")
  case True
  then obtain c0 where pc: "pc = Some c0" "c0 > c" by (auto split: option.splits)
  with inv obtain l0 r0 p0 where prow: "prow = Some (l0, r0, p0, c0)"
    by (auto simp: restore_prev_def split: option.splits)
  from True R have "R = Stop (Err TSI_ERR_UNSORTED_EDGES) s" by simp
  with kind have "R = Stop (Err TSI_ERR_UNSORTED_EDGES) s'" by auto
  moreover have "rows_clash (l0, r0, p0, c0) (l, r, p, c)" using pc(2) by (simp add: rows_clash_def)
  moreover have "\<not> rows_follow (l0, r0, p0, c0) (l, r, p, c)"
    using pc(2) by (simp add: rows_follow_def)
  ultimately show ?thesis using prow by blast
next
  case False
  let ?n = "edge_heap_next s"
  have notq: "\<not> quiet x" if "R = Stop x sx" for x sx
    using that kind by auto
  obtain e s1 where al: "tree_sequence_builder_alloc_edge s l r p c = Ok e s1"
  proof (cases "tree_sequence_builder_alloc_edge s l r p c")
    case (Ok e s1)
    then show ?thesis by (rule that)
  next
    case (Stop x s1)
    with R False have "R = Stop x s1" by simp
    with notq quiet_alloc_edge [OF Stop] show ?thesis by blast
  qed
  from alloc_edge_result [OF al] have
    r1: "e = ?n" "edge_heap s1 = (edge_heap s)(?n \<mapsto>
             \<lparr>left = l, right = r, parent = p, child = c, etime = time s (nat c)\<rparr>)"
    "edge_heap_next s1 = ?n + 1" "path s1 = path s"
    by simp_all
  have c0: "0 \<le> c"
    using al by (auto simp: tree_sequence_builder_alloc_edge_def split: if_splits)
  let ?mid = "if path s (nat c) = []
              then Ok () (s1\<lparr>path := (path s1)(nat c := [?n])\<rparr>)
              else (case prev of
                      None \<Rightarrow> Stop Fault s1
                    | Some pr \<Rightarrow>
                      (case edge_heap s1 pr of
                         None \<Rightarrow> Stop Fault s1
                       | Some pe \<Rightarrow>
                           if right pe > l then Stop (Err TSI_ERR_UNSORTED_EDGES) s1
                           else Ok () (link_after s1 pr ?n)))"
  have Req: "R = (case ?mid of
                    Stop x s2 \<Rightarrow> Stop x s2
                  | Ok _ s2 \<Rightarrow>
                    (case tree_sequence_builder_index_edge s2 ?n of
                       Stop x s3 \<Rightarrow> Stop x s3
                     | Ok _ s3 \<Rightarrow> restore_edges_loop s3 (Some ?n) (Some c) rest))"
    using R False al r1(1,4) by simp
  \<comment> \<open>the row before, when there is one\<close>
  have before: "c0' \<le> c \<and> 0 \<le> c0' \<and> path s (nat c0') \<noteq> []
      \<and> (\<exists>pr pe. prev = Some pr \<and> edge_heap s1 pr = Some pe \<and> right pe = r0)"
    if "prow = Some (l0, r0, p0, c0')" for l0 r0 p0 c0'
  proof -
    from inv that obtain pr pe where
      i: "pc = Some c0'" "0 \<le> c0'" "path s (nat c0') \<noteq> []" "prev = Some pr" "pr < ?n"
      "edge_heap s pr = Some pe" "right pe = r0"
      by (auto simp: restore_prev_def)
    from False i(1) have "c0' \<le> c" by simp
    moreover have "edge_heap s1 pr = Some pe" using i(5,6) by (simp add: r1(2))
    ultimately show ?thesis using i by blast
  qed
  show ?thesis
  proof (cases ?mid)
    case (Stop x s2)
    with Req have Rs: "R = Stop x s2" by simp
    from Stop obtain pr pe where
      ne: "path s (nat c) \<noteq> []" and pr: "prev = Some pr" "edge_heap s1 pr = Some pe"
      "right pe > l" and x: "x = Err TSI_ERR_UNSORTED_EDGES"
      using notq [OF Rs] by (auto split: if_splits option.splits)
    from pr(1) inv obtain l0 r0 p0 c0' where prow: "prow = Some (l0, r0, p0, c0')"
      by (cases prow) (auto simp: restore_prev_def)
    from before [OF prow] pr have b: "c0' \<le> c" "0 \<le> c0'" "r0 > l" by auto
    have pcs: "pc = Some c0'" using inv prow by (simp add: restore_prev_def)
    have "R = Stop (Err TSI_ERR_UNSORTED_EDGES) s'" using Rs x kind by auto
    moreover have "rows_clash (l0, r0, p0, c0') (l, r, p, c)"
      using b(3) by (simp add: rows_clash_def)
    moreover have "\<not> rows_follow (l0, r0, p0, c0') (l, r, p, c)" if "paths_below s pc"
    proof -
      from that ne pcs have "nat c \<le> nat c0'" by (simp add: paths_below_def)
      with b(1,2) c0 have "c = c0'" by simp
      with b(3) show ?thesis by (simp add: rows_follow_def)
    qed
    ultimately show ?thesis using prow by blast
  next
    case (Ok v s2)
    then have s2: "edge_heap s2 = edge_heap s1" "edge_heap_next s2 = ?n + 1"
      "path s2 (nat c) \<noteq> []" "\<forall>d. path s2 d \<noteq> [] \<longrightarrow> d = nat c \<or> path s d \<noteq> []"
      by (auto simp: link_after_def r1 split: if_splits option.splits)
    have fol: "rows_follow a (l, r, p, c)" if "prow = Some a" for a
    proof -
      obtain l0 r0 p0 c0' where a: "a = (l0, r0, p0, c0')" by (cases a)
      from before [OF that [unfolded a]] obtain pr pe where
        b: "c0' \<le> c" "path s (nat c0') \<noteq> []" "prev = Some pr" "edge_heap s1 pr = Some pe"
        "right pe = r0" by blast
      have "r0 \<le> l" if "c0' = c"
        using Ok b that by (auto split: if_splits)
      with b(1) show ?thesis by (simp add: a rows_follow_def)
    qed
    obtain s3 where ix: "tree_sequence_builder_index_edge s2 ?n = Ok () s3"
    proof (cases "tree_sequence_builder_index_edge s2 ?n")
      case (Ok w s3)
      then show ?thesis using that by simp
    next
      case (Stop x s3)
      with Req \<open>?mid = Ok v s2\<close> have "R = Stop x s3" by simp
      with notq quiet_index_edge [OF Stop] show ?thesis by blast
    qed
    from index_edge_frame [OF ix] have
      s3: "edge_heap s3 = edge_heap s1" "path s3 = path s2" "edge_heap_next s3 = ?n + 1"
      using s2 by simp_all
    have "restore_edges_loop s3 (Some ?n) (Some c) rest = R"
      using Req \<open>?mid = Ok v s2\<close> ix by simp
    moreover have "restore_prev s3 (Some ?n) (Some c) (Some (l, r, p, c))"
      using c0 s2(3) by (simp add: restore_prev_def s3 r1(2))
    moreover have "paths_below s3 (Some c)" if pb: "paths_below s pc"
      unfolding paths_below_def option.case s3(2)
    proof (intro allI impI)
      fix d assume "path s2 d \<noteq> []"
      with s2(4) have "d = nat c \<or> path s d \<noteq> []" by blast
      then show "d \<le> nat c"
      proof
        assume "path s d \<noteq> []"
        with pb obtain c0' where pcs: "pc = Some c0'" "d \<le> nat c0'"
          by (cases pc) (auto simp: paths_below_def)
        from False pcs(1) have "c0' \<le> c" by simp
        with pcs(2) show ?thesis by simp
      qed simp
    qed
    ultimately show ?thesis using fol by blast
  qed
qed

lemma restore_edges_loop_accepts:
  assumes "restore_edges_loop s prev pc rows = Ok u s'" "restore_prev s prev pc prow"
  shows "successively rows_follow (case prow of None \<Rightarrow> rows | Some a \<Rightarrow> a # rows)"
  using assms
proof (induction rows arbitrary: s prev pc prow)
  case Nil
  then show ?case by (simp split: option.splits)
next
  case (Cons b rows)
  obtain l r p c where b: "b = (l, r, p, c)" by (cases b)
  from restore_row [OF Cons.prems(1) [unfolded b] _ Cons.prems(2), of u s']
  obtain s3 where
    rec: "restore_edges_loop s3 (Some (edge_heap_next s)) (Some c) rows = Ok u s'" and
    inv: "restore_prev s3 (Some (edge_heap_next s)) (Some c) (Some (l, r, p, c))" and
    fol: "\<forall>a. prow = Some a \<longrightarrow> rows_follow a (l, r, p, c)"
    by auto
  from Cons.IH [OF rec inv] have "successively rows_follow (b # rows)" by (simp add: b)
  with fol show ?case by (cases prow) (simp_all add: b)
qed

lemma restore_edges_loop_rejects:
  assumes "restore_edges_loop s prev pc rows = Stop (Err TSI_ERR_UNSORTED_EDGES) s'"
    and "restore_prev s prev pc prow"
  shows "\<not> successively (\<lambda>a b. \<not> rows_clash a b) (case prow of None \<Rightarrow> rows | Some a \<Rightarrow> a # rows)
       \<and> (paths_below s pc \<longrightarrow>
            \<not> successively rows_follow (case prow of None \<Rightarrow> rows | Some a \<Rightarrow> a # rows))"
  using assms
proof (induction rows arbitrary: s prev pc prow)
  case Nil
  then show ?case by simp
next
  case (Cons b rows)
  obtain l r p c where b: "b = (l, r, p, c)" by (cases b)
  from restore_row [OF Cons.prems(1) [unfolded b] _ Cons.prems(2), of undefined s']
  consider
    (here) a where "prow = Some a" "rows_clash a (l, r, p, c)"
      "paths_below s pc \<longrightarrow> \<not> rows_follow a (l, r, p, c)"
  | (later) s3 where
      "restore_edges_loop s3 (Some (edge_heap_next s)) (Some c) rows
         = Stop (Err TSI_ERR_UNSORTED_EDGES) s'"
      "restore_prev s3 (Some (edge_heap_next s)) (Some c) (Some (l, r, p, c))"
      "paths_below s pc \<longrightarrow> paths_below s3 (Some c)"
    by auto
  then show ?case
  proof cases
    case here
    then show ?thesis by (simp add: b)
  next
    case later
    from Cons.IH [OF later(1,2)] later(3) have
      "\<not> successively (\<lambda>a b. \<not> rows_clash a b) (b # rows)"
      "paths_below s pc \<longrightarrow> \<not> successively rows_follow (b # rows)"
      by (simp_all add: b)
    then show ?thesis by (cases prow) (auto simp: b)
  qed
qed

lemma rows_follow_sorted:
  assumes "successively rows_follow (a # rows)" "\<forall>(l, r, p, c) \<in> set (a # rows). l < r"
  shows "rows_sorted_from (Some (snd (snd (snd a)), fst a)) rows"
  using assms
proof (induction rows arbitrary: a)
  case Nil
  then show ?case by simp
next
  case (Cons b rows)
  obtain l r p c where a: "a = (l, r, p, c)" by (cases a)
  obtain l' r' p' c' where b: "b = (l', r', p', c')" by (cases b)
  from Cons.prems have f: "rows_follow a b" "successively rows_follow (b # rows)"
    "l < r" "\<forall>(l, r, p, c) \<in> set (b # rows). l < r"
    by (auto simp: a)
  from f(1,3) have "c < c' \<or> (c = c' \<and> l \<le> l')"
    by (auto simp: rows_follow_def a b)
  with Cons.IH [OF f(2,4)] show ?case by (simp add: a b)
qed

text \<open>Rows that are intervals and are restored with success are sorted.\<close>

lemma restore_edges_ok_sorted:
  assumes "tree_sequence_builder_restore_edges s rows = Ok u s'"
    and "\<forall>(l, r, p, c) \<in> set rows. l < r"
  shows "rows_sorted rows"
proof -
  from assms(1) obtain s1 where "restore_edges_loop s None None rows = Ok () s1"
    by (auto simp: tree_sequence_builder_restore_edges_def split: res.splits)
  from restore_edges_loop_accepts [OF this, of None]
  have suc: "successively rows_follow rows" by (simp add: restore_prev_def)
  show ?thesis
  proof (cases rows)
    case Nil
    then show ?thesis by (simp add: rows_sorted_def)
  next
    case (Cons a rest)
    obtain l r p c where a: "a = (l, r, p, c)" by (cases a)
    from rows_follow_sorted [OF suc [unfolded Cons] assms(2) [unfolded Cons]]
    show ?thesis by (simp add: rows_sorted_def Cons a)
  qed
qed

subsection \<open>C6: restoring edges\<close>

lemma restore_step:
  assumes inv: "restore_inv s prev pc"
    and wf: "l < r" "valid_node s p" "valid_node s c" "time s (nat c) < time s (nat p)"
  shows "(\<exists>sx. restore_edges_loop s prev pc ((l, r, p, c) # rest) = Stop (Err TSI_ERR_UNSORTED_EDGES) sx)
       \<or> (\<exists>s3. restore_edges_loop s prev pc ((l, r, p, c) # rest)
                  = restore_edges_loop s3 (Some (edge_heap_next s)) (Some c) rest
               \<and> restore_inv s3 (Some (edge_heap_next s)) (Some c)
               \<and> nodes_of s3 = nodes_of s
               \<and> prev_key s3 (Some (edge_heap_next s)) = Some (c, l)
               \<and> (case prev_key s prev of None \<Rightarrow> True
                   | Some (c', l') \<Rightarrow> c' < c \<or> (c' = c \<and> l' \<le> l)))"
proof (cases "case pc of None \<Rightarrow> False | Some c' \<Rightarrow> c' > c")
  case True
  then show ?thesis by simp
next
  case False
  let ?n = "edge_heap_next s"
  let ?ne = "\<lparr>left = l, right = r, parent = p, child = c, etime = time s (nat c)\<rparr>"
  let ?s1 = "s\<lparr>edge_heap := (edge_heap s)(?n \<mapsto> ?ne),
               edge_heap_next := ?n + 1,
               edge_heap_allocated := edge_heap_allocated s + 1\<rparr>"
  have c0: "0 \<le> c" using wf(3) by (simp add: valid_node_def)
  have alloc: "tree_sequence_builder_alloc_edge s l r p c = Ok ?n ?s1"
    using wf by (intro alloc_edge_ok) (auto simp: valid_node_def)
  \<comment> \<open>what the invariant says about the indexed edges\<close>
  have old: "i < ?n \<and> (\<exists>x. edge_heap s i = Some x \<and> path s (nat (child x)) \<noteq> []
                          \<and> 0 \<le> child x \<and> left x < right x)"
    if "i \<in> indexed s" for i
    using inv that by (auto simp: restore_inv_def split: option.splits)
  \<comment> \<open>the state after the path has been extended, or the early return\<close>
  have mid: "(\<exists>sx. restore_edges_loop s prev pc ((l, r, p, c) # rest)
                  = Stop (Err TSI_ERR_UNSORTED_EDGES) sx)
      \<or> (\<exists>s2. restore_edges_loop s prev pc ((l, r, p, c) # rest)
                  = (case tree_sequence_builder_index_edge s2 ?n of
                       Stop x s3 \<Rightarrow> Stop x s3
                     | Ok _ s3 \<Rightarrow> restore_edges_loop s3 (Some ?n) (Some c) rest)
               \<and> edge_heap s2 = edge_heap ?s1 \<and> indexed s2 = indexed s
               \<and> nodes_of s2 = nodes_of s \<and> edge_heap_next s2 = ?n + 1
               \<and> path s2 (nat c) \<noteq> [] \<and> (\<forall>k. path s k \<noteq> [] \<longrightarrow> path s2 k \<noteq> [])
               \<and> (\<forall>pr pe. prev = Some pr \<longrightarrow> edge_heap s pr = Some pe \<longrightarrow> child pe = c
                     \<longrightarrow> right pe \<le> l))"
  proof (cases "path s (nat c) = []")
    case True
    let ?s2 = "?s1\<lparr>path := (path ?s1)(nat c := [?n])\<rparr>"
    have nochild: "child pe \<noteq> c" if "prev = Some pr" "edge_heap s pr = Some pe" for pr pe
    proof
      assume "child pe = c"
      moreover have "pr \<in> indexed s"
        using inv that by (auto simp: restore_inv_def)
      ultimately show False using old [of pr] that True by auto
    qed
    have "restore_edges_loop s prev pc ((l, r, p, c) # rest)
                  = (case tree_sequence_builder_index_edge ?s2 ?n of
                       Stop x s3 \<Rightarrow> Stop x s3
                     | Ok _ s3 \<Rightarrow> restore_edges_loop s3 (Some ?n) (Some c) rest)"
      using False True by (simp add: alloc)
    moreover have "edge_heap ?s2 = edge_heap ?s1" "indexed ?s2 = indexed s"
      "nodes_of ?s2 = nodes_of s" "edge_heap_next ?s2 = ?n + 1" "path ?s2 (nat c) \<noteq> []"
      "\<forall>k. path s k \<noteq> [] \<longrightarrow> path ?s2 k \<noteq> []"
      by (simp_all add: indexed_def nodes_of_def)
    ultimately show ?thesis using nochild by blast
  next
    case ne: False
    then obtain pr pe where pr: "prev = Some pr" "edge_heap s pr = Some pe" "pr \<in> indexed s"
      using inv by (cases prev) (auto simp: restore_inv_def)
    have prn: "pr \<noteq> ?n" using old [OF pr(3)] by simp
    show ?thesis
    proof (cases "right pe > l")
      case True
      then show ?thesis using False ne pr prn by (simp add: alloc)
    next
      case nr: False
      let ?s2 = "link_after ?s1 pr ?n"
      have "restore_edges_loop s prev pc ((l, r, p, c) # rest)
                  = (case tree_sequence_builder_index_edge ?s2 ?n of
                       Stop x s3 \<Rightarrow> Stop x s3
                     | Ok _ s3 \<Rightarrow> restore_edges_loop s3 (Some ?n) (Some c) rest)"
        using False ne nr pr prn by (simp add: alloc)
      moreover have "edge_heap ?s2 = edge_heap ?s1" "indexed ?s2 = indexed s"
        "nodes_of ?s2 = nodes_of s" "edge_heap_next ?s2 = ?n + 1" "path ?s2 (nat c) \<noteq> []"
        "\<forall>k. path s k \<noteq> [] \<longrightarrow> path ?s2 k \<noteq> []"
        using ne by (simp_all add: indexed_def nodes_of_def link_after_def)
      ultimately show ?thesis using nr pr by auto
    qed
  qed
  show ?thesis
  proof (rule disjE [OF mid])
    assume "\<exists>sx. restore_edges_loop s prev pc ((l, r, p, c) # rest)
                  = Stop (Err TSI_ERR_UNSORTED_EDGES) sx"
    then show ?thesis by blast
  next
    assume "\<exists>s2. restore_edges_loop s prev pc ((l, r, p, c) # rest)
                  = (case tree_sequence_builder_index_edge s2 ?n of
                       Stop x s3 \<Rightarrow> Stop x s3
                     | Ok _ s3 \<Rightarrow> restore_edges_loop s3 (Some ?n) (Some c) rest)
               \<and> edge_heap s2 = edge_heap ?s1 \<and> indexed s2 = indexed s
               \<and> nodes_of s2 = nodes_of s \<and> edge_heap_next s2 = ?n + 1
               \<and> path s2 (nat c) \<noteq> [] \<and> (\<forall>k. path s k \<noteq> [] \<longrightarrow> path s2 k \<noteq> [])
               \<and> (\<forall>pr pe. prev = Some pr \<longrightarrow> edge_heap s pr = Some pe \<longrightarrow> child pe = c
                     \<longrightarrow> right pe \<le> l)"
    then obtain s2 where
      eq: "restore_edges_loop s prev pc ((l, r, p, c) # rest)
                  = (case tree_sequence_builder_index_edge s2 ?n of
                       Stop x s3 \<Rightarrow> Stop x s3
                     | Ok _ s3 \<Rightarrow> restore_edges_loop s3 (Some ?n) (Some c) rest)" and
      h2: "edge_heap s2 = edge_heap ?s1" and i2: "indexed s2 = indexed s" and
      n2: "nodes_of s2 = nodes_of s" and x2: "edge_heap_next s2 = ?n + 1" and
      pc2: "path s2 (nat c) \<noteq> []" and pk: "\<forall>k. path s k \<noteq> [] \<longrightarrow> path s2 k \<noteq> []" and
      chk: "\<forall>pr pe. prev = Some pr \<longrightarrow> edge_heap s pr = Some pe \<longrightarrow> child pe = c
                     \<longrightarrow> right pe \<le> l"
      by blast
    have hn: "edge_heap s2 ?n = Some ?ne" using h2 by simp
    have ho: "edge_heap s2 i = edge_heap s i" if "i \<in> indexed s" for i
      using old [OF that] h2 by simp
    \<comment> \<open>every indexed edge comes before the new one\<close>
    have before: "\<exists>x. edge_heap s i = Some x \<and> path s (nat (child x)) \<noteq> []
                      \<and> 0 \<le> child x \<and> left x < right x
                      \<and> (child x < c \<or> (child x = c \<and> right x \<le> l))"
      if "i \<in> indexed s" for i
    proof -
      from that inv obtain pr pe where
        pr: "prev = Some pr" "pc = Some (child pe)" "edge_heap s pr = Some pe"
        by (cases prev) (auto simp: restore_inv_def)
      from that inv pr obtain x where
        x: "edge_heap s i = Some x" "path s (nat (child x)) \<noteq> []" "0 \<le> child x"
        "left x < right x" "child x < child pe \<or> (child x = child pe \<and> right x \<le> right pe)"
        by (fastforce simp: restore_inv_def)
      have le: "child pe \<le> c" using False pr(2) by simp
      have "child x < c \<or> (child x = c \<and> right x \<le> l)"
      proof (cases "child pe = c")
        case True
        with chk pr have "right pe \<le> l" by blast
        with x(5) True show ?thesis by auto
      next
        case False
        with le x(5) show ?thesis by auto
      qed
      with x show ?thesis by blast
    qed
    have pre: "\<forall>i \<in> indexed s2. \<exists>x. edge_heap s2 i = Some x
           \<and> (child x \<noteq> child ?ne \<or> (left x \<noteq> left ?ne \<and> right x \<noteq> right ?ne))"
    proof
      fix i assume "i \<in> indexed s2"
      then have i: "i \<in> indexed s" using i2 by simp
      from before [OF i] obtain x where "edge_heap s i = Some x" "left x < right x"
        "child x < c \<or> (child x = c \<and> right x \<le> l)" by blast
      then show "\<exists>x. edge_heap s2 i = Some x
           \<and> (child x \<noteq> child ?ne \<or> (left x \<noteq> left ?ne \<and> right x \<noteq> right ?ne))"
        using ho [OF i] wf(1) by auto
    qed
    from index_edge_ok_indexed [OF hn pre] obtain s3 where
      s3: "tree_sequence_builder_index_edge s2 ?n = Ok () s3" "indexed s3 = insert ?n (indexed s2)"
      "edge_heap s3 = edge_heap s2" "path s3 = path s2" "nodes_of s3 = nodes_of s2"
      "edge_heap_next s3 = edge_heap_next s2" by blast
    have all3: "i < edge_heap_next s3
                \<and> (\<exists>x. edge_heap s3 i = Some x \<and> path s3 (nat (child x)) \<noteq> []
                          \<and> 0 \<le> child x \<and> left x < right x
                          \<and> (child x < child ?ne
                              \<or> (child x = child ?ne \<and> right x \<le> right ?ne)))"
      if "i \<in> indexed s3" for i
    proof -
      from that consider "i = ?n" | "i \<in> indexed s" using s3(2) i2 by auto
      then show ?thesis
      proof cases
        case 1
        then show ?thesis using s3(3,4,6) x2 hn pc2 c0 wf(1) by simp
      next
        case 2
        from before [OF 2] obtain x where "edge_heap s i = Some x" "path s (nat (child x)) \<noteq> []"
          "0 \<le> child x" "left x < right x" "child x < c \<or> (child x = c \<and> right x \<le> l)" by blast
        then show ?thesis using s3(3,4,6) x2 ho [OF 2] old [OF 2] pk wf(1) by auto
      qed
    qed
    have inv3: "restore_inv s3 (Some ?n) (Some c)"
      unfolding restore_inv_def option.case
    proof (rule exI [of _ ?ne], intro conjI)
      show "Some c = Some (child ?ne)" by simp
      show "edge_heap s3 ?n = Some ?ne" using s3(3) hn by simp
      show "?n \<in> indexed s3" using s3(2) by simp
      show "\<forall>i \<in> indexed s3. i < edge_heap_next s3
                \<and> (\<exists>x. edge_heap s3 i = Some x \<and> path s3 (nat (child x)) \<noteq> []
                          \<and> 0 \<le> child x \<and> left x < right x
                          \<and> (child x < child ?ne
                              \<or> (child x = child ?ne \<and> right x \<le> right ?ne)))"
        using all3 by blast
    qed
    have key: "prev_key s3 (Some ?n) = Some (c, l)"
      using s3(3) hn by (simp add: prev_key_def)
    have srt: "case prev_key s prev of None \<Rightarrow> True
                   | Some (c', l') \<Rightarrow> c' < c \<or> (c' = c \<and> l' \<le> l)"
    proof (cases prev)
      case None
      then show ?thesis by (simp add: prev_key_def)
    next
      case (Some pr)
      with inv obtain pe where pe: "pc = Some (child pe)" "edge_heap s pr = Some pe"
        "pr \<in> indexed s" by (auto simp: restore_inv_def)
      from old [OF pe(3)] pe(2) have lt: "left pe < right pe" by auto
      have le: "child pe \<le> c" using False pe(1) by simp
      have "child pe < c \<or> (child pe = c \<and> left pe \<le> l)"
      proof (cases "child pe = c")
        case True
        with chk Some pe(2) have "right pe \<le> l" by blast
        with lt True show ?thesis by simp
      next
        case False
        with le show ?thesis by simp
      qed
      then show ?thesis using Some pe(2) by (simp add: prev_key_def)
    qed
    have "restore_edges_loop s prev pc ((l, r, p, c) # rest)
        = restore_edges_loop s3 (Some ?n) (Some c) rest"
      using eq s3(1) by simp
    with inv3 key srt s3(5) n2 show ?thesis by auto
  qed
qed

lemma restore_edges_loop_sorted:
  assumes "restore_inv s prev pc"
    and "\<forall>(l, r, p, c) \<in> set rows.
           l < r \<and> valid_node s p \<and> valid_node s c \<and> time s (nat c) < time s (nat p)"
  shows "(returns_ok (restore_edges_loop s prev pc rows)
           \<or> stop_of (restore_edges_loop s prev pc rows) = Some (Err TSI_ERR_UNSORTED_EDGES))
       \<and> (\<not> rows_sorted_from (prev_key s prev) rows \<longrightarrow>
             stop_of (restore_edges_loop s prev pc rows) = Some (Err TSI_ERR_UNSORTED_EDGES))"
  using assms
proof (induction rows arbitrary: s prev pc)
  case Nil
  show ?case by (simp add: returns_ok_def)
next
  case (Cons a rows)
  obtain l r p c where a: "a = (l, r, p, c)" by (cases a)
  have wf: "l < r" "valid_node s p" "valid_node s c" "time s (nat c) < time s (nat p)"
    using Cons.prems(2) a by auto
  from restore_step [OF Cons.prems(1) wf, of rows]
  show ?case
  proof
    assume "\<exists>sx. restore_edges_loop s prev pc ((l, r, p, c) # rows)
                  = Stop (Err TSI_ERR_UNSORTED_EDGES) sx"
    then show ?thesis unfolding a by auto
  next
    assume "\<exists>s3. restore_edges_loop s prev pc ((l, r, p, c) # rows)
                  = restore_edges_loop s3 (Some (edge_heap_next s)) (Some c) rows
               \<and> restore_inv s3 (Some (edge_heap_next s)) (Some c)
               \<and> nodes_of s3 = nodes_of s
               \<and> prev_key s3 (Some (edge_heap_next s)) = Some (c, l)
               \<and> (case prev_key s prev of None \<Rightarrow> True
                   | Some (c', l') \<Rightarrow> c' < c \<or> (c' = c \<and> l' \<le> l))"
    then obtain s3 where
      eq: "restore_edges_loop s prev pc ((l, r, p, c) # rows)
                  = restore_edges_loop s3 (Some (edge_heap_next s)) (Some c) rows" and
      inv: "restore_inv s3 (Some (edge_heap_next s)) (Some c)" and
      nd: "nodes_of s3 = nodes_of s" and
      key: "prev_key s3 (Some (edge_heap_next s)) = Some (c, l)" and
      srt: "case prev_key s prev of None \<Rightarrow> True
                   | Some (c', l') \<Rightarrow> c' < c \<or> (c' = c \<and> l' \<le> l)"
      by blast
    have same: "valid_node s3 = valid_node s" "time s3 = time s"
      using nd by (auto simp: nodes_of_def valid_node_def fun_eq_iff)
    have wf3: "\<forall>(l, r, p, c) \<in> set rows.
           l < r \<and> valid_node s3 p \<and> valid_node s3 c \<and> time s3 (nat c) < time s3 (nat p)"
      using Cons.prems(2) unfolding same by simp
    from Cons.IH [OF inv wf3] show ?thesis
      unfolding a eq key using srt by (auto split: option.splits)
  qed
qed

lemma index_edge_length:
  "tree_sequence_builder_index_edge s e = Ok u s' \<Longrightarrow>
     length (left_index s') = Suc (length (left_index s))
     \<and> length (right_index s') = Suc (length (right_index s))"
proof -
  have len: "length t' = Suc (length t)" if "avl_insert_node cmp h t e key = Some t'"
    for cmp h t key t'
  proof -
    let ?P = "\<lambda>i. case h i of None \<Rightarrow> False | Some x \<Rightarrow> cmp x key < 0"
    have "length (takeWhile ?P t) + length (dropWhile ?P t) = length t"
      by (metis length_append takeWhile_dropWhile_id)
    with that show ?thesis
      by (auto simp: avl_insert_node_def split: if_splits)
  qed
  assume "tree_sequence_builder_index_edge s e = Ok u s'"
  then show ?thesis
    by (auto simp: tree_sequence_builder_index_edge_def split: option.splits if_splits dest: len)
qed

lemma restore_edges_loop_length:
  "restore_edges_loop s prev pc rows = Ok u s' \<Longrightarrow>
     length (left_index s') = length (left_index s) + length rows
     \<and> length (right_index s') = length (right_index s) + length rows"
proof (induction rows arbitrary: s prev pc)
  case Nil
  then show ?case by simp
next
  case (Cons a rows)
  obtain l r p c where a: "a = (l, r, p, c)" by (cases a)
  from Cons.prems obtain e s1 s2 s3 where
    al: "tree_sequence_builder_alloc_edge s l r p c = Ok e s1" and
    s2: "s2 = s1\<lparr>path := (path s1)(nat c := [e])\<rparr> \<or> (\<exists>pr. s2 = link_after s1 pr e)" and
    ix: "tree_sequence_builder_index_edge s2 e = Ok () s3" and
    rec: "restore_edges_loop s3 (Some e) (Some c) rows = Ok u s'"
    unfolding a by (auto split: if_splits res.splits option.splits)
  have "left_index s1 = left_index s" "right_index s1 = right_index s"
    using al by (auto simp: tree_sequence_builder_alloc_edge_def split: if_splits)
  then have "left_index s2 = left_index s" "right_index s2 = right_index s"
    using s2 by (auto simp: link_after_def)
  with index_edge_length [OF ix] Cons.IH [OF rec] show ?case by simp
qed

lemma freeze_indexes_result:
  assumes "tree_sequence_builder_freeze_indexes s = Ok u s'"
  shows "num_edges s' = length (left_index s)
       \<and> left_index_edges s' = chain_edges (edge_heap s') (left_index s')
       \<and> right_index_edges s' = chain_edges (edge_heap s') (right_index s')
       \<and> length (left_index_edges s') = length (left_index s)
       \<and> length (right_index_edges s') = length (right_index s)"
proof -
  from assms have live: "items_live (edge_heap s) (left_index s)"
    "items_live (edge_heap s) (right_index s)"
    and s': "s' = s\<lparr>num_edges := avl_count (left_index s),
                    left_index_edges := chain_edges (edge_heap s) (left_index s),
                    right_index_edges := chain_edges (edge_heap s) (right_index s)\<rparr>"
    by (auto simp: tree_sequence_builder_freeze_indexes_def chain_edges_def split: if_splits)
  have len: "length (chain_edges (edge_heap s) t) = length t" if "items_live (edge_heap s) t" for t
  proof -
    have "\<forall>j \<in> set t. edge_heap s j = Some (the (edge_heap s j))"
      using that by (auto simp: items_live_iff)
    from chain_edges_all_live [OF this] show ?thesis by simp
  qed
  show ?thesis
    unfolding s' using len [OF live(1)] len [OF live(2)] by (simp add: avl_count_def)
qed

text \<open>
  C6 as stated fails: rows that are not intervals can be restored out of order, and on
  rows that are not edges of the builder's nodes, or on a builder that already holds
  edges, the call stops in an assertion or a fault before it reports the order. The rows
  \<open>(2,1,0,1), (1,3,0,1)\<close> are not sorted by left and are restored with success; the
  unsorted rows \<open>(0,3,1,1), (0,3,0,0)\<close> stop in the time assertion of \<open>alloc_edge\<close>; and
  on a builder where node 1 has a path the unsorted rows \<open>(5,6,0,1), (4,7,0,1)\<close> read
  through \<open>prev\<close>, which is \<open>NULL\<close> at the first row.
\<close>

theorem restore_edges_accepts_unsorted:
  "\<not> rows_sorted [(2, 1, 0, 1), (1, 3, 0, 1)]
   \<and> stop_of (tree_sequence_builder_restore_edges two_nodes [(2, 1, 0, 1), (1, 3, 0, 1)]) = None
   \<and> \<not> rows_sorted [(0, 3, 1, 1), (0, 3, 0, 0)]
   \<and> stop_of (tree_sequence_builder_restore_edges two_nodes [(0, 3, 1, 1), (0, 3, 0, 0)])
       = Some (Assert Alloc_edge_time)
   \<and> \<not> rows_sorted [(5, 6, 0, 1), (4, 7, 0, 1)]
   \<and> stop_of (tree_sequence_builder_restore_edges one_path [(5, 6, 0, 1), (4, 7, 0, 1)])
       = Some Fault"
  by (simp add: rows_sorted_def two_nodes_def one_path_def model_defs)

text \<open>
  C6 (as amended). Rows with \<open>left < right\<close> that are not sorted by child and, within a
  child, by left are never restored with success, whatever the builder. On a builder
  without edges, and for rows that are edges of the builder's nodes (\<open>left < right\<close>,
  parent and child are nodes, the parent is older than the child), \<open>restore_edges\<close>
  returns \<open>UNSORTED_EDGES\<close> for them. When the call succeeds it has frozen the indexes:
  the flat left and right arrays hold the edges of the two indexes in index order, one
  more per row, and \<open>num_edges\<close> is their number.
\<close>

theorem restore_edges_rejects_unsorted:
  "((\<forall>(l, r, p, c) \<in> set rows. l < r) \<and> \<not> rows_sorted rows \<longrightarrow>
       stop_of (tree_sequence_builder_restore_edges s rows) \<noteq> None)
   \<and> (indexed s = {} \<and> (\<forall>c. path s c = [])
        \<and> (\<forall>(l, r, p, c) \<in> set rows.
              l < r \<and> valid_node s p \<and> valid_node s c \<and> time s (nat c) < time s (nat p))
        \<and> \<not> rows_sorted rows \<longrightarrow>
       stop_of (tree_sequence_builder_restore_edges s rows) = Some (Err TSI_ERR_UNSORTED_EDGES))
   \<and> (\<forall>u s'. tree_sequence_builder_restore_edges s rows = Ok u s' \<longrightarrow>
         num_edges s' = length (left_index s) + length rows
         \<and> left_index_edges s' = chain_edges (edge_heap s') (left_index s')
         \<and> right_index_edges s' = chain_edges (edge_heap s') (right_index s')
         \<and> length (left_index_edges s') = length (left_index s) + length rows
         \<and> length (right_index_edges s') = length (right_index s) + length rows)"
proof (intro conjI impI allI)
  assume a: "(\<forall>(l, r, p, c) \<in> set rows. l < r) \<and> \<not> rows_sorted rows"
  show "stop_of (tree_sequence_builder_restore_edges s rows) \<noteq> None"
  proof
    assume "stop_of (tree_sequence_builder_restore_edges s rows) = None"
    then obtain u s' where "tree_sequence_builder_restore_edges s rows = Ok u s'"
      by (cases "tree_sequence_builder_restore_edges s rows") simp_all
    from restore_edges_ok_sorted [OF this] a show False by blast
  qed
next
  assume a: "indexed s = {} \<and> (\<forall>c. path s c = [])
        \<and> (\<forall>(l, r, p, c) \<in> set rows.
              l < r \<and> valid_node s p \<and> valid_node s c \<and> time s (nat c) < time s (nat p))
        \<and> \<not> rows_sorted rows"
  then have inv: "restore_inv s None None" by (simp add: restore_inv_def)
  from a have wf: "\<forall>(l, r, p, c) \<in> set rows.
              l < r \<and> valid_node s p \<and> valid_node s c \<and> time s (nat c) < time s (nat p)"
    and ns: "\<not> rows_sorted rows" by blast+
  from restore_edges_loop_sorted [OF inv wf] ns
  have "stop_of (restore_edges_loop s None None rows) = Some (Err TSI_ERR_UNSORTED_EDGES)"
    by (simp add: rows_sorted_def prev_key_def)
  then show "stop_of (tree_sequence_builder_restore_edges s rows)
              = Some (Err TSI_ERR_UNSORTED_EDGES)"
    by (cases "restore_edges_loop s None None rows")
      (auto simp: tree_sequence_builder_restore_edges_def)
next
  fix u s'
  assume ok: "tree_sequence_builder_restore_edges s rows = Ok u s'"
  then obtain s1 where
    loop: "restore_edges_loop s None None rows = Ok () s1" and
    fr: "tree_sequence_builder_freeze_indexes s1 = Ok u s'"
    by (auto simp: tree_sequence_builder_restore_edges_def split: res.splits)
  from restore_edges_loop_length [OF loop] have
    len: "length (left_index s1) = length (left_index s) + length rows"
    "length (right_index s1) = length (right_index s) + length rows"
    by simp_all
  note fz = freeze_indexes_result [OF fr, unfolded len]
  show "num_edges s' = length (left_index s) + length rows"
    "left_index_edges s' = chain_edges (edge_heap s') (left_index s')"
    "right_index_edges s' = chain_edges (edge_heap s') (right_index s')"
    "length (left_index_edges s') = length (left_index s) + length rows"
    "length (right_index_edges s') = length (right_index s) + length rows"
    using fz by blast+
qed

theorem restore_edges_rejects_unsorted_witness:
  "stop_of (tree_sequence_builder_restore_edges three_nodes [(0, 3, 0, 2), (0, 3, 0, 1)])
     = Some (Err TSI_ERR_UNSORTED_EDGES)
   \<and> stop_of (tree_sequence_builder_restore_edges one_path [(5, 6, 0, 1), (4, 7, 0, 1)]) \<noteq> None
   \<and> stop_of (tree_sequence_builder_restore_edges three_nodes [(0, 3, 0, 1), (0, 3, 1, 2)]) = None
   \<and> num_edges (state_of (tree_sequence_builder_restore_edges three_nodes
        [(0, 3, 0, 1), (0, 3, 1, 2)])) = 2
   \<and> length (left_index_edges (state_of (tree_sequence_builder_restore_edges three_nodes
        [(0, 3, 0, 1), (0, 3, 1, 2)]))) = 2"
proof -
  have h: "indexed three_nodes = {}" "\<forall>c. path three_nodes c = []"
    "left_index three_nodes = []"
    by (simp_all add: three_nodes_def indexed_def model_defs)
  have w1: "\<forall>(l, r, p, c) \<in> set [(0 :: int, 3 :: int, 0 :: int, 2 :: int), (0, 3, 0, 1)].
           l < r \<and> valid_node three_nodes p \<and> valid_node three_nodes c
           \<and> time three_nodes (nat c) < time three_nodes (nat p)"
    by (simp add: three_nodes_def model_defs)
  have u: "\<not> rows_sorted [(0, 3, 0, 2), (0, 3, 0, 1)]" by (simp add: rows_sorted_def)
  have w3: "\<forall>(l, r, p, c) \<in> set [(5 :: int, 6 :: int, 0 :: int, 1 :: int), (4, 7, 0, 1)]. l < r"
    by simp
  have u3: "\<not> rows_sorted [(5, 6, 0, 1), (4, 7, 0, 1)]" by (simp add: rows_sorted_def)
  obtain s' where
    ok: "tree_sequence_builder_restore_edges three_nodes [(0, 3, 0, 1), (0, 3, 1, 2)] = Ok () s'"
    by (simp add: three_nodes_def model_defs)
  note t1 = restore_edges_rejects_unsorted
    [of "[(0, 3, 0, 2), (0, 3, 0, 1)]" three_nodes]
  note t2 = restore_edges_rejects_unsorted
    [of "[(5, 6, 0, 1), (4, 7, 0, 1)]" one_path]
  note t3 = restore_edges_rejects_unsorted
    [of "[(0, 3, 0, 1), (0, 3, 1, 2)]" three_nodes]
  from t1 h w1 u
  have g: "stop_of (tree_sequence_builder_restore_edges three_nodes [(0, 3, 0, 2), (0, 3, 0, 1)])
     = Some (Err TSI_ERR_UNSORTED_EDGES)" by blast
  from t2 w3 u3
  have g2: "stop_of (tree_sequence_builder_restore_edges one_path [(5, 6, 0, 1), (4, 7, 0, 1)])
     \<noteq> None" by blast
  from t3 ok
  have f: "num_edges s' = length (left_index three_nodes)
             + length [(0 :: int, 3 :: int, 0 :: int, 1 :: int), (0, 3, 1, 2)]"
    "length (left_index_edges s') = length (left_index three_nodes)
             + length [(0 :: int, 3 :: int, 0 :: int, 1 :: int), (0, 3, 1, 2)]"
    by blast+
  show ?thesis using g g2 f by (simp add: ok h(3))
qed

subsection \<open>C8: a child that is not a node\<close>

text \<open>
  C8. For every \<open>add_path\<close> call with \<open>child \<ge> num_nodes\<close> the call returns the generic
  error code, not one of the validation codes, and the builder state is unchanged: the
  check comes before any allocation or mutation.
\<close>

theorem add_path_bad_child:
  assumes "c \<ge> int (num_nodes s)"
  shows "tree_sequence_builder_add_path s c entries flags = Stop (Err TSI_ERR_GENERIC) s"
  using assms by (simp add: tree_sequence_builder_add_path_def)

theorem add_path_bad_child_witness:
  "(2::int) \<ge> int (num_nodes two_nodes)
   \<and> tree_sequence_builder_add_path two_nodes 2 [(0, 3, 0)] 1
       = Stop (Err TSI_ERR_GENERIC) two_nodes"
proof -
  have h: "(2::int) \<ge> int (num_nodes two_nodes)"
    by (simp add: two_nodes_def with_nodes_def builder_init_def
        tree_sequence_builder_add_node_def)
  show ?thesis
    using h add_path_bad_child [OF h, of "[(0, 3, 0)]" 1] by simp
qed

subsection \<open>C9: restoring edges with a gap\<close>

text \<open>
  C9. \<open>restore_edges\<close> does not enforce contiguity. For every builder and all rows: when
  the call succeeds, no row has a smaller child than the row before it, and no row of the
  child of the row before it begins before that row ends; when the call returns
  \<open>UNSORTED_EDGES\<close>, some row has a smaller child than the row before it or begins before
  the row before it ends (\<open>prev.right > next.left\<close>), and on a builder without paths that
  row has a smaller child or is of the same child and begins before the row before it
  ends. So within a child only overlapping adjacent rows are rejected, not rows with a
  gap: the rows \<open>(0,1,0,1), (2,3,0,1)\<close> are restored with success and leave a path that is
  not left-contiguous.
\<close>

theorem restore_edges_rejects_only_overlap:
  "(stop_of (tree_sequence_builder_restore_edges s rows) = None \<longrightarrow>
      successively rows_follow rows)
   \<and> (stop_of (tree_sequence_builder_restore_edges s rows) = Some (Err TSI_ERR_UNSORTED_EDGES) \<longrightarrow>
        \<not> successively (\<lambda>a b. \<not> rows_clash a b) rows
        \<and> ((\<forall>c. path s c = []) \<longrightarrow> \<not> successively rows_follow rows))
   \<and> stop_of (tree_sequence_builder_restore_edges two_nodes [(0, 1, 0, 1), (2, 3, 0, 1)]) = None
   \<and> path_edges
        (state_of (tree_sequence_builder_restore_edges two_nodes [(0, 1, 0, 1), (2, 3, 0, 1)])) 1
       = [\<lparr>left = 0, right = 1, parent = 0, child = 1\<rparr>,
          \<lparr>left = 2, right = 3, parent = 0, child = 1\<rparr>]
   \<and> \<not> left_contiguous (path_edges
        (state_of (tree_sequence_builder_restore_edges two_nodes [(0, 1, 0, 1), (2, 3, 0, 1)])) 1)"
proof (intro conjI impI)
  assume "stop_of (tree_sequence_builder_restore_edges s rows) = None"
  then obtain u s' s1 where "restore_edges_loop s None None rows = Ok u s1"
    by (cases "restore_edges_loop s None None rows")
      (auto simp: tree_sequence_builder_restore_edges_def)
  from restore_edges_loop_accepts [OF this, of None]
  show "successively rows_follow rows" by (simp add: restore_prev_def)
next
  assume a: "stop_of (tree_sequence_builder_restore_edges s rows)
      = Some (Err TSI_ERR_UNSORTED_EDGES)"
  have "\<exists>s'. restore_edges_loop s None None rows = Stop (Err TSI_ERR_UNSORTED_EDGES) s'"
  proof (cases "restore_edges_loop s None None rows")
    case (Ok u s1)
    with a have "stop_of (tree_sequence_builder_freeze_indexes s1)
        = Some (Err TSI_ERR_UNSORTED_EDGES)"
      by (simp add: tree_sequence_builder_restore_edges_def)
    then show ?thesis
      by (auto simp: tree_sequence_builder_freeze_indexes_def split: if_splits)
  next
    case (Stop x s1)
    with a show ?thesis by (simp add: tree_sequence_builder_restore_edges_def)
  qed
  then obtain s' where
    "restore_edges_loop s None None rows = Stop (Err TSI_ERR_UNSORTED_EDGES) s'" ..
  from restore_edges_loop_rejects [OF this, of None]
  have r: "\<not> successively (\<lambda>a b. \<not> rows_clash a b) rows"
    "paths_below s None \<longrightarrow> \<not> successively rows_follow rows"
    by (simp_all add: restore_prev_def)
  show "\<not> successively (\<lambda>a b. \<not> rows_clash a b) rows" by (rule r(1))
  show "\<not> successively rows_follow rows" if "\<forall>c. path s c = []"
    using r(2) that by (simp add: paths_below_def)
qed (simp_all add: two_nodes_def model_defs)

theorem restore_edges_rejects_only_overlap_witness:
  "stop_of (tree_sequence_builder_restore_edges two_nodes [(0, 1, 0, 1), (2, 3, 0, 1)]) = None
   \<and> successively rows_follow [(0, 1, 0, 1), (2, 3, 0, 1)]
   \<and> stop_of (tree_sequence_builder_restore_edges two_nodes [(0, 2, 0, 1), (1, 3, 0, 1)])
       = Some (Err TSI_ERR_UNSORTED_EDGES)
   \<and> (\<forall>c. path two_nodes c = [])
   \<and> \<not> successively rows_follow [(0, 2, 0, 1), (1, 3, 0, 1)]"
proof -
  have a: "stop_of (tree_sequence_builder_restore_edges two_nodes [(0, 1, 0, 1), (2, 3, 0, 1)])
      = None"
    by (simp add: two_nodes_def model_defs)
  have b: "stop_of (tree_sequence_builder_restore_edges two_nodes [(0, 2, 0, 1), (1, 3, 0, 1)])
       = Some (Err TSI_ERR_UNSORTED_EDGES)"
    by (simp add: two_nodes_def model_defs)
  have c: "\<forall>c. path two_nodes c = []" by (simp add: two_nodes_def model_defs)
  from restore_edges_rejects_only_overlap [of two_nodes "[(0, 1, 0, 1), (2, 3, 0, 1)]"] a
  have "successively rows_follow [(0, 1, 0, 1), (2, 3, 0, 1)]" by blast
  moreover
  from restore_edges_rejects_only_overlap [of two_nodes "[(0, 2, 0, 1), (1, 3, 0, 1)]"] b c
  have "\<not> successively rows_follow [(0, 2, 0, 1), (1, 3, 0, 1)]" by blast
  ultimately show ?thesis using a b c by blast
qed

subsection \<open>C2: a second path for the same child\<close>

text \<open>
  C2. After a successful \<open>add_path\<close> the three indexes should hold exactly the edges of
  the paths. Here the code is evaluated on a second \<open>add_path\<close> for a child that already
  has a path: the call returns success, each index holds two entries while the paths
  hold one edge, and the invariant check of the code itself fails; with
  \<open>TSI_EXTENDED_CHECKS\<close> the call stops in that check.
\<close>

theorem add_path_twice_breaks_index_count:
  "stop_of (tree_sequence_builder_add_path two_nodes 1 [(0, 3, 0)] 0) = None
   \<and> stop_of (tree_sequence_builder_add_path one_path 1 [(1, 2, 0)] 0) = None
   \<and> avl_count (left_index (state_of (tree_sequence_builder_add_path one_path 1 [(1, 2, 0)] 0))) = 2
   \<and> avl_count (right_index (state_of (tree_sequence_builder_add_path one_path 1 [(1, 2, 0)] 0))) = 2
   \<and> avl_count (path_index (state_of (tree_sequence_builder_add_path one_path 1 [(1, 2, 0)] 0))) = 2
   \<and> total_edges (state_of (tree_sequence_builder_add_path one_path 1 [(1, 2, 0)] 0)) = 1
   \<and> \<not> tree_sequence_builder_check_state
          (state_of (tree_sequence_builder_add_path one_path 1 [(1, 2, 0)] 0))
   \<and> stop_of (tree_sequence_builder_add_path one_path 1 [(1, 2, 0)] TSI_EXTENDED_CHECKS)
       = Some (Assert Check_state)"
  by code_simp

end
